theory Spec2Isabelle
  imports Main
begin

section \<open>Go strings and the library routines the exclusion engine calls\<close>

text \<open>
  A Go string is a sequence of bytes, here a \<^typ>\<open>string\<close> (a list of 8-bit characters).
  The engine runs on a Unix host: the path separator is the slash. The library routines
  below (package \<^verbatim>\<open>strings\<close>, \<^verbatim>\<open>unicode/utf8\<close>, \<^verbatim>\<open>unicode\<close>, \<^verbatim>\<open>bufio\<close>, \<^verbatim>\<open>path/filepath\<close>)
  are written after the Go standard library, loop by loop.
\<close>

abbreviation backslash :: char where
  "backslash \<equiv> CHR 0x5C"

abbreviation Separator :: char where
  "Separator \<equiv> CHR ''/''"

definition RuneError :: nat where
  "RuneError = 0xFFFD"

text \<open>
  \<^verbatim>\<open>utf8.DecodeRuneInString\<close>: the first rune of the string and its width in bytes. An
  empty string gives \<open>(RuneError, 0)\<close>, an invalid encoding \<open>(RuneError, 1)\<close>. The table
  \<^verbatim>\<open>first\<close> gives for a leading byte the width of its sequence (\<open>leadWidth\<close>) and the
  range its second byte must lie in (\<open>accepts\<close>); the later bytes lie between \<^verbatim>\<open>locb\<close> and
  \<^verbatim>\<open>hicb\<close> (\<open>continuation\<close>).
\<close>

definition validLead :: "nat \<Rightarrow> bool" where
  "validLead s0 = (0xC2 \<le> s0 \<and> s0 \<le> 0xF4)"

definition leadWidth :: "nat \<Rightarrow> nat" where
  "leadWidth s0 = (if s0 < 0xE0 then 2 else if s0 < 0xF0 then 3 else 4)"

definition accepts :: "nat \<Rightarrow> nat \<Rightarrow> bool" where
  "accepts s0 s1 =
     ((if s0 = 0xE0 then 0xA0 else if s0 = 0xF0 then 0x90 else 0x80) \<le> s1
      \<and> s1 \<le> (if s0 = 0xED then 0x9F else if s0 = 0xF4 then 0x8F else 0xBF))"

definition continuation :: "nat \<Rightarrow> bool" where
  "continuation b = (0x80 \<le> b \<and> b \<le> 0xBF)"

text \<open>The runes of a two, three and four byte sequence (the masks and shifts).\<close>

definition rune2 :: "nat \<Rightarrow> nat \<Rightarrow> nat" where
  "rune2 s0 s1 = (s0 mod 32) * 64 + s1 mod 64"

definition rune3 :: "nat \<Rightarrow> nat \<Rightarrow> nat \<Rightarrow> nat" where
  "rune3 s0 s1 s2 = (s0 mod 16) * 4096 + (s1 mod 64) * 64 + s2 mod 64"

definition rune4 :: "nat \<Rightarrow> nat \<Rightarrow> nat \<Rightarrow> nat \<Rightarrow> nat" where
  "rune4 s0 s1 s2 s3 = (s0 mod 8) * 262144 + (s1 mod 64) * 4096 + (s2 mod 64) * 64 + s3 mod 64"

fun DecodeRuneInString :: "string \<Rightarrow> nat \<times> nat" where
  "DecodeRuneInString [] = (RuneError, 0)"
| "DecodeRuneInString (c0 # cs) =
     (let s0 = (of_char c0 :: nat) in
      if s0 < 0x80 then (s0, 1)
      else if \<not> validLead s0 then (RuneError, 1)
      else if length (c0 # cs) < leadWidth s0 then (RuneError, 1)
      else
        let s1 = (of_char (cs ! 0) :: nat) in
        if \<not> accepts s0 s1 then (RuneError, 1)
        else if leadWidth s0 \<le> 2 then (rune2 s0 s1, 2)
        else
          let s2 = (of_char (cs ! 1) :: nat) in
          if \<not> continuation s2 then (RuneError, 1)
          else if leadWidth s0 \<le> 3
          then (rune3 s0 s1 s2, 3)
          else
            let s3 = (of_char (cs ! 2) :: nat) in
            if \<not> continuation s3 then (RuneError, 1)
            else (rune4 s0 s1 s2 s3, 4))"

lemma leadWidth_cases: "leadWidth s0 = 2 \<or> leadWidth s0 = 3 \<or> leadWidth s0 = 4"
  by (simp add: leadWidth_def)

lemma DecodeRuneInString_width:
  assumes "s \<noteq> []"
  shows "1 \<le> snd (DecodeRuneInString s) \<and> snd (DecodeRuneInString s) \<le> length s"
proof (cases s)
  case Nil
  with assms show ?thesis by simp
next
  case (Cons c0 cs)
  then show ?thesis
    using leadWidth_cases [of "of_char c0"] by (auto simp: Let_def Suc_le_eq)
qed

lemma DecodeRuneInString_window:
  assumes "leadWidth (of_char c0) \<le> Suc (length cs)"
  shows "DecodeRuneInString ((c0 # cs) @ t) = DecodeRuneInString (c0 # cs)"
proof -
  consider "leadWidth (of_char c0) = 2" | "leadWidth (of_char c0) = 3"
    | "leadWidth (of_char c0) = 4"
    using leadWidth_cases by blast
  then show ?thesis
  proof cases
    case 1
    with assms have "(cs @ t) ! 0 = cs ! 0"
      by (cases cs) (simp_all add: nth_append)
    with 1 assms show ?thesis by (auto simp: Let_def Suc_le_eq)
  next
    case 2
    with assms have "(cs @ t) ! 0 = cs ! 0" "(cs @ t) ! Suc 0 = cs ! Suc 0"
      by (auto simp: nth_append Suc_le_eq)
    with 2 assms show ?thesis by (auto simp: Let_def Suc_le_eq)
  next
    case 3
    with assms have "(cs @ t) ! 0 = cs ! 0" "(cs @ t) ! Suc 0 = cs ! Suc 0" "(cs @ t) ! 2 = cs ! 2"
      by (auto simp: nth_append Suc_le_eq)
    with 3 assms show ?thesis by (auto simp: Let_def Suc_le_eq)
  qed
qed

lemma DecodeRuneInString_short:
  assumes "\<not> (of_char c0 :: nat) < 0x80" and "Suc (length cs) < leadWidth (of_char c0)"
  shows "DecodeRuneInString (c0 # cs) = (RuneError, 1)"
  using assms by (simp add: Let_def)

lemma DecodeRuneInString_append:
  assumes "DecodeRuneInString s = (r, n)" and "\<not> (r = RuneError \<and> n = 1)" and "s \<noteq> []"
  shows "DecodeRuneInString (s @ t) = (r, n)"
proof (cases s)
  case Nil
  with assms show ?thesis by simp
next
  case (Cons c0 cs)
  show ?thesis
  proof (cases "(of_char c0 :: nat) < 0x80")
    case True
    with Cons assms(1) show ?thesis by (simp add: Let_def)
  next
    case False
    show ?thesis
    proof (cases "leadWidth (of_char c0) \<le> Suc (length cs)")
      case True
      with Cons assms(1) show ?thesis
        using DecodeRuneInString_window [of c0 cs t] by simp
    next
      case short: False
      with False Cons assms(1,2) show ?thesis
        using DecodeRuneInString_short [of c0 cs] by simp
    qed
  qed
qed

lemma DecodeRuneInString_continuation:
  assumes "DecodeRuneInString s = (r, n)" and "1 \<le> i" and "i < n"
  shows "(0x80::nat) \<le> of_char (s ! i)"
proof (cases s)
  case Nil
  with assms show ?thesis by simp
next
  case (Cons c0 cs)
  from assms(1) have ok: "\<not> (r = RuneError \<and> n = 1)"
    using assms(2,3) by simp
  have c: "accepts a b \<Longrightarrow> (0x80::nat) \<le> b" "continuation b \<Longrightarrow> (0x80::nat) \<le> b" for a b
    by (auto simp: accepts_def continuation_def split: if_split_asm)
  from assms(2,3) consider "i = 1" "2 \<le> n" | "i = 2" "3 \<le> n" | "i = 3" "4 \<le> n" | "4 \<le> i" "5 \<le> n"
    by linarith
  then show ?thesis
  proof cases
    case 1
    with Cons assms(1) show ?thesis
      by (auto simp: Let_def dest: c split: if_split_asm)
  next
    case 2
    with Cons assms(1) show ?thesis
      by (auto simp: Let_def dest: c split: if_split_asm)
  next
    case 3
    with Cons assms(1) show ?thesis
      by (auto simp: Let_def dest: c split: if_split_asm)
  next
    case 4
    with Cons assms(1) show ?thesis
      by (auto simp: Let_def split: if_split_asm)
  qed
qed

subsection \<open>Glob matching: \<^verbatim>\<open>filepath.Match\<close>\<close>

text \<open>
  \<^verbatim>\<open>scanChunk\<close> gets the next segment of the pattern: a non-star string, possibly preceded
  by stars. \<open>scanIdx\<close> is its scanning loop: the index of the first star outside a
  bracket expression; a backslash skips the byte after it.
\<close>

fun scanIdx :: "string \<Rightarrow> bool \<Rightarrow> nat" where
  "scanIdx [] inrange = 0"
| "scanIdx (c # cs) inrange =
     (if c = backslash then (case cs of [] \<Rightarrow> 1 | _ # cs' \<Rightarrow> 2 + scanIdx cs' inrange)
      else if c = CHR ''['' then 1 + scanIdx cs True
      else if c = CHR '']'' then 1 + scanIdx cs False
      else if c = CHR ''*'' \<and> \<not> inrange then 0
      else 1 + scanIdx cs inrange)"

definition scanChunk :: "string \<Rightarrow> bool \<times> string \<times> string" where
  "scanChunk pattern =
     (let star = (pattern \<noteq> [] \<and> hd pattern = CHR ''*'');
          pattern' = dropWhile (\<lambda>c. c = CHR ''*'') pattern;
          i = scanIdx pattern' False
      in (star, take i pattern', drop i pattern'))"

text \<open>
  \<^verbatim>\<open>getEsc\<close> gets a possibly escaped character from the chunk, for a character class.
  \<open>None\<close> is \<^verbatim>\<open>ErrBadPattern\<close>; the callers return as soon as they see it.
\<close>

definition getEsc :: "string \<Rightarrow> (nat \<times> string) option" where
  "getEsc chunk =
     (if chunk = [] \<or> hd chunk = CHR ''-'' \<or> hd chunk = CHR '']'' then None
      else
        let chunk' = (if hd chunk = backslash then tl chunk else chunk) in
        if chunk' = [] then None
        else
          let (r, n) = DecodeRuneInString chunk';
              nchunk = drop n chunk'
          in if (r = RuneError \<and> n = 1) \<or> nchunk = [] then None else Some (r, nchunk))"

lemma getEsc_shorter: "getEsc chunk = Some (r, nchunk) \<Longrightarrow> length nchunk < length chunk"
proof -
  assume a: "getEsc chunk = Some (r, nchunk)"
  define chunk' where "chunk' = (if hd chunk = backslash then tl chunk else chunk)"
  from a have ne: "chunk \<noteq> []" "chunk' \<noteq> []"
    by (auto simp: getEsc_def chunk'_def Let_def split: if_splits)
  from a have n: "nchunk = drop (snd (DecodeRuneInString chunk')) chunk'"
    by (auto simp: getEsc_def chunk'_def Let_def split: if_splits prod.splits)
  have "length chunk' \<le> length chunk"
    by (simp add: chunk'_def)
  moreover have "1 \<le> snd (DecodeRuneInString chunk')"
    using DecodeRuneInString_width [OF ne(2)] by simp
  ultimately show ?thesis
    using n ne by (cases chunk') auto
qed

lemma getEsc_nonempty: "getEsc chunk = Some (r, nchunk) \<Longrightarrow> nchunk \<noteq> []"
  by (auto simp: getEsc_def Let_def split: if_splits prod.splits)

text \<open>
  The loop that parses all ranges of a character class and tests the rune \<open>r\<close> against
  each. It returns the chunk after the closing bracket and whether a range held \<open>r\<close>;
  \<open>None\<close> is \<^verbatim>\<open>ErrBadPattern\<close>.
\<close>

function classRanges :: "string \<Rightarrow> nat \<Rightarrow> bool \<Rightarrow> nat \<Rightarrow> (string \<times> bool) option" where
  "classRanges chunk r match nrange =
     (if chunk \<noteq> [] \<and> hd chunk = CHR '']'' \<and> 0 < nrange then Some (tl chunk, match)
      else
        case getEsc chunk of
          None \<Rightarrow> None
        | Some (lo, chunk1) \<Rightarrow>
            if hd chunk1 = CHR ''-'' then
              (case getEsc (tl chunk1) of
                 None \<Rightarrow> None
               | Some (hi, chunk2) \<Rightarrow>
                   classRanges chunk2 r (match \<or> (lo \<le> r \<and> r \<le> hi)) (nrange + 1))
            else classRanges chunk1 r (match \<or> (lo \<le> r \<and> r \<le> lo)) (nrange + 1))"
  by pat_completeness auto
termination
proof (relation "measure (\<lambda>(chunk, r, match, nrange). length chunk)", goal_cases)
  case 1
  show ?case by simp
next
  case (2 chunk r match nrange x2 lo chunk1 x2a hi chunk2)
  from 2 have "length chunk1 < length chunk" "length chunk2 < length (tl chunk1)"
    by (auto dest: getEsc_shorter)
  then show ?case by simp
next
  case (3 chunk r match nrange x2 lo chunk1)
  then show ?case by (auto dest: getEsc_shorter)
qed

declare classRanges.simps [simp del]

lemma classRanges_shorter:
  "classRanges chunk r match nrange = Some (chunk', match') \<Longrightarrow> length chunk' < length chunk"
proof (induction chunk r match nrange rule: classRanges.induct)
  case (1 chunk r match nrange)
  note eq = "1.prems" [unfolded classRanges.simps [of chunk r match nrange]]
  show ?case
  proof (cases "chunk \<noteq> [] \<and> hd chunk = CHR '']'' \<and> 0 < nrange")
    case True
    with eq show ?thesis by (cases chunk) auto
  next
    case False
    with eq obtain lo chunk1 where g1: "getEsc chunk = Some (lo, chunk1)"
      by (auto split: option.splits)
    have l1: "length chunk1 < length chunk"
      using g1 by (rule getEsc_shorter)
    show ?thesis
    proof (cases "hd chunk1 = CHR ''-''")
      case True
      with False g1 eq obtain hi chunk2 where g2: "getEsc (tl chunk1) = Some (hi, chunk2)"
        by (auto split: option.splits)
      from False g1 True g2 eq
      have "classRanges chunk2 r (match \<or> (lo \<le> r \<and> r \<le> hi)) (nrange + 1) = Some (chunk', match')"
        by (auto split: if_splits)
      then have "length chunk' < length chunk2"
        using "1.IH"(1) [OF False g1 refl True g2 refl] by simp
      moreover have "length chunk2 < length (tl chunk1)"
        using g2 by (rule getEsc_shorter)
      ultimately show ?thesis using l1 by simp
    next
      case F2: False
      from False g1 F2 eq
      have "classRanges chunk1 r (match \<or> (lo \<le> r \<and> r \<le> lo)) (nrange + 1) = Some (chunk', match')"
        by (auto split: if_splits)
      then have "length chunk' < length chunk1"
        using "1.IH"(2) [OF False g1 refl F2] by simp
      then show ?thesis using l1 by simp
    qed
  qed
qed

text \<open>
  The errors of the library calls: \<^verbatim>\<open>filepath.ErrBadPattern\<close>; the error of \<^verbatim>\<open>os.Open\<close> and
  \<^verbatim>\<open>os.Stat\<close> on a path where nothing is; the error of reading a directory as a file;
  \<^verbatim>\<open>bufio.ErrTooLong\<close>; the error of \<^verbatim>\<open>filepath.Rel\<close>.
\<close>

datatype error = ErrBadPattern | ErrNotExist | ErrIsDir | ErrTooLong | ErrRel

text \<open>
  The three outcomes of \<^verbatim>\<open>matchChunk\<close>, which returns \<^verbatim>\<open>(rest, ok, err)\<close>: a bad pattern
  (\<^verbatim>\<open>err != nil\<close>), no match (\<^verbatim>\<open>ok == false\<close>), or a match with the rest of the name.
\<close>

datatype chunkres = ChunkErr | ChunkFail | ChunkOk string

text \<open>
  \<^verbatim>\<open>matchChunk\<close> checks whether the chunk matches the beginning of \<open>s\<close>. After the match
  has failed the loop goes on through the chunk, checking that the pattern is well
  formed but no longer reading \<open>s\<close>.
\<close>

function matchChunkLoop :: "string \<Rightarrow> string \<Rightarrow> bool \<Rightarrow> chunkres" where
  "matchChunkLoop [] s failed = (if failed then ChunkFail else ChunkOk s)"
| "matchChunkLoop (c # chunk) s failed0 =
     (let failed = (failed0 \<or> s = []) in
      if c = CHR ''['' then
        (let r = (if failed then 0 else fst (DecodeRuneInString s));
             s' = (if failed then s else drop (snd (DecodeRuneInString s)) s);
             negated = (chunk \<noteq> [] \<and> hd chunk = CHR ''^'');
             chunk' = (if negated then tl chunk else chunk)
         in case classRanges chunk' r False 0 of
              None \<Rightarrow> ChunkErr
            | Some (chunk'', match) \<Rightarrow>
                matchChunkLoop chunk'' s' (failed \<or> match = negated))
      else if c = CHR ''?'' then
        (if failed then matchChunkLoop chunk s True
         else matchChunkLoop chunk (drop (snd (DecodeRuneInString s)) s) (hd s = Separator))
      else if c = backslash then
        (case chunk of
           [] \<Rightarrow> ChunkErr
         | c' # chunk' \<Rightarrow>
             if failed then matchChunkLoop chunk' s True
             else matchChunkLoop chunk' (tl s) (c' \<noteq> hd s))
      else
        (if failed then matchChunkLoop chunk s True
         else matchChunkLoop chunk (tl s) (c \<noteq> hd s)))"
  by pat_completeness auto
termination
proof (relation "measure (\<lambda>(chunk, s, failed). length chunk)", goal_cases)
  case (2 c chunk s failed0 failed r s' negated chunk' x2 chunk'' match)
  from 2 have "length chunk'' < length chunk'"
    by (auto dest: classRanges_shorter)
  moreover from 2 have "length chunk' \<le> length chunk"
    by auto
  ultimately show ?case by simp
qed auto

definition matchChunk :: "string \<Rightarrow> string \<Rightarrow> chunkres" where
  "matchChunk chunk s = matchChunkLoop chunk s False"

text \<open>
  The inner loop of \<^verbatim>\<open>Match\<close> for a chunk after a star: look for a match skipping
  \<open>i + 1\<close> bytes, never past a separator. The second argument is \<^verbatim>\<open>len(pattern) == 0\<close>
  (this is the last chunk), the third is \<^verbatim>\<open>name[i:]\<close>.
\<close>

fun starLoop :: "string \<Rightarrow> bool \<Rightarrow> string \<Rightarrow> chunkres" where
  "starLoop chunk lastChunk [] = ChunkFail"
| "starLoop chunk lastChunk (c # name') =
     (if c = Separator then ChunkFail
      else
        case matchChunk chunk name' of
          ChunkOk t \<Rightarrow> if lastChunk \<and> t \<noteq> [] then starLoop chunk lastChunk name' else ChunkOk t
        | ChunkErr \<Rightarrow> ChunkErr
        | ChunkFail \<Rightarrow> starLoop chunk lastChunk name')"

text \<open>
  One round of the outer loop of \<^verbatim>\<open>Match\<close>, up to the point where it either continues
  with the rest of the pattern on the rest \<open>t\<close> of the name (\<open>ChunkOk t\<close>), returns
  \<^verbatim>\<open>false, err\<close> (\<open>ChunkErr\<close>) or returns \<^verbatim>\<open>false, nil\<close> (\<open>ChunkFail\<close>).
\<close>

definition matchStep :: "bool \<Rightarrow> string \<Rightarrow> string \<Rightarrow> string \<Rightarrow> chunkres" where
  "matchStep star chunk rest name =
     (case matchChunk chunk name of
        ChunkOk t \<Rightarrow>
          if t = [] \<or> rest \<noteq> [] then ChunkOk t
          else if star then starLoop chunk (rest = []) name
          else ChunkFail
      | ChunkErr \<Rightarrow> ChunkErr
      | ChunkFail \<Rightarrow> if star then starLoop chunk (rest = []) name else ChunkFail)"

lemma scanIdx_pos: "pattern \<noteq> [] \<Longrightarrow> hd pattern \<noteq> CHR ''*'' \<Longrightarrow> 0 < scanIdx pattern inrange"
  by (cases pattern) (auto split: list.splits)

lemma scanChunk_rest_shorter:
  assumes "pattern \<noteq> []" and "scanChunk pattern = (star, chunk, rest)"
    and "\<not> (star \<and> chunk = [])"
  shows "length rest < length pattern"
proof -
  define p' where "p' = dropWhile (\<lambda>c. c = CHR ''*'') pattern"
  from assms(2) have st: "star = (pattern \<noteq> [] \<and> hd pattern = CHR ''*'')"
    and ch: "chunk = take (scanIdx p' False) p'"
    and re: "rest = drop (scanIdx p' False) p'"
    by (auto simp: scanChunk_def Let_def p'_def)
  show ?thesis
  proof (cases star)
    case True
    with st assms(1) have "length p' < length pattern"
      unfolding p'_def by (cases pattern) (auto simp: le_imp_less_Suc length_dropWhile_le)
    with re show ?thesis by simp
  next
    case False
    with st assms(1) have "p' = pattern"
      unfolding p'_def by (cases pattern) auto
    moreover from False st assms(1) have "0 < scanIdx pattern False"
      by (intro scanIdx_pos) auto
    ultimately show ?thesis using re assms(1) by simp
  qed
qed

text \<open>
  \<^verbatim>\<open>filepath.Match\<close> reports whether the name matches the shell pattern; the only error
  it returns is \<^verbatim>\<open>ErrBadPattern\<close>. The loop takes one chunk of the pattern per round
  (\<open>matchStep\<close>) and goes on with the rest of the pattern and the rest of the name.
\<close>

function Match :: "string \<Rightarrow> string \<Rightarrow> bool \<times> error option" where
  "Match pattern name =
     (if pattern = [] then (name = [], None)
      else
        case scanChunk pattern of
          (star, chunk, rest) \<Rightarrow>
            if star \<and> chunk = [] then (Separator \<notin> set name, None)
            else
              case matchStep star chunk rest name of
                ChunkOk t \<Rightarrow> Match rest t
              | ChunkErr \<Rightarrow> (False, Some ErrBadPattern)
              | ChunkFail \<Rightarrow> (False, None))"
  by pat_completeness auto
termination
  by (relation "measure (\<lambda>(pattern, name). length pattern)")
    (auto dest: scanChunk_rest_shorter [OF _ sym])

declare Match.simps [simp del]

lemmas Match_eval =
  Match.simps scanChunk_def matchStep_def matchChunk_def classRanges.simps getEsc_def Let_def
  RuneError_def validLead_def leadWidth_def accepts_def continuation_def
  rune2_def rune3_def rune4_def

text \<open>
  The patterns that \<^verbatim>\<open>matchChunk\<close> reads to their end without \<^verbatim>\<open>ErrBadPattern\<close>: its walk
  over a pattern, without the name. (A star outside a bracket expression never reaches
  \<^verbatim>\<open>matchChunk\<close>; here it is read like any other character.)
\<close>

function wellFormed :: "string \<Rightarrow> bool" where
  "wellFormed [] = True"
| "wellFormed (c # chunk) =
     (if c = CHR ''['' then
        (case classRanges (if chunk \<noteq> [] \<and> hd chunk = CHR ''^'' then tl chunk else chunk)
                0 False 0 of
           None \<Rightarrow> False
         | Some (chunk', match) \<Rightarrow> wellFormed chunk')
      else if c = backslash then
        (case chunk of [] \<Rightarrow> False | c' # chunk' \<Rightarrow> wellFormed chunk')
      else wellFormed chunk)"
  by pat_completeness auto
termination
proof (relation "measure length", goal_cases)
  case (2 c chunk x2 chunk' match)
  then have "length chunk' < length (if chunk \<noteq> [] \<and> hd chunk = CHR ''^'' then tl chunk else chunk)"
    by (auto dest: classRanges_shorter)
  then show ?case by (auto split: if_splits)
qed auto

subsection \<open>Package \<^verbatim>\<open>strings\<close>\<close>

definition HasPrefix :: "string \<Rightarrow> string \<Rightarrow> bool" where
  "HasPrefix s prefix = (length prefix \<le> length s \<and> take (length prefix) s = prefix)"

definition HasSuffix :: "string \<Rightarrow> string \<Rightarrow> bool" where
  "HasSuffix s suffix =
     (length suffix \<le> length s \<and> drop (length s - length suffix) s = suffix)"

text \<open>
  \<^verbatim>\<open>strings.Split(s, sep)\<close> for a one-byte separator: the substrings between the
  separators; a string without separator (the empty one too) gives one element.
\<close>

fun Split :: "string \<Rightarrow> char \<Rightarrow> string list" where
  "Split [] sep = [[]]"
| "Split (c # cs) sep =
     (if c = sep then [] # Split cs sep
      else case Split cs sep of
             [] \<Rightarrow> [[c]]
           | x # xs \<Rightarrow> (c # x) # xs)"

fun Join :: "string list \<Rightarrow> string \<Rightarrow> string" where
  "Join [] sep = []"
| "Join [x] sep = x"
| "Join (x # y # ys) sep = x @ sep @ Join (y # ys) sep"

text \<open>\<^verbatim>\<open>unicode.IsSpace\<close>: the white space of Latin-1 and of the rest of Unicode.\<close>

definition IsSpace :: "nat \<Rightarrow> bool" where
  "IsSpace r =
     (if r \<le> 0xFF then r \<in> {0x09, 0x0A, 0x0B, 0x0C, 0x0D, 0x20, 0x85, 0xA0}
      else r = 0x1680 \<or> (0x2000 \<le> r \<and> r \<le> 0x200A) \<or> r = 0x2028 \<or> r = 0x2029
           \<or> r = 0x202F \<or> r = 0x205F \<or> r = 0x3000)"

text \<open>
  \<^verbatim>\<open>utf8.DecodeLastRuneInString\<close>: the last rune of the string and its width.
  \<open>lastRuneStart\<close> is its loop, which walks back to the start byte of the rune, at most
  \<^verbatim>\<open>UTFMax\<close> bytes from the end.
\<close>

definition RuneStart :: "nat \<Rightarrow> bool" where
  "RuneStart b = (\<not> (0x80 \<le> b \<and> b < 0xC0))"

function lastRuneStart :: "string \<Rightarrow> int \<Rightarrow> int \<Rightarrow> int" where
  "lastRuneStart s start lim =
     (if start < lim then start
      else if RuneStart (of_char (s ! nat start)) then start
      else lastRuneStart s (start - 1) lim)"
  by pat_completeness auto
termination
  by (relation "measure (\<lambda>(s, start, lim). nat (start - lim + 1))") auto

declare lastRuneStart.simps [simp del]

definition DecodeLastRuneInString :: "string \<Rightarrow> nat \<times> nat" where
  "DecodeLastRuneInString s =
     (let e = int (length s) in
      if e = 0 then (RuneError, 0)
      else
        let r = (of_char (s ! nat (e - 1)) :: nat) in
        if r < 0x80 then (r, 1)
        else
          let lim = max 0 (e - 4);
              start0 = lastRuneStart s (e - 2) lim;
              start = (if start0 < 0 then 0 else start0);
              (r, wid) = DecodeRuneInString (drop (nat start) s)
          in if start + int wid \<noteq> e then (RuneError, 1) else (r, wid))"

lemma lastRuneStart_bounds: "start < e \<Longrightarrow> lim \<le> e \<Longrightarrow> lastRuneStart s start lim < e"
  by (induction s start lim rule: lastRuneStart.induct) (subst lastRuneStart.simps, auto)

lemma DecodeLastRuneInString_width:
  assumes "s \<noteq> []"
  shows "1 \<le> snd (DecodeLastRuneInString s) \<and> snd (DecodeLastRuneInString s) \<le> length s"
proof -
  define start0 where "start0 = lastRuneStart s (int (length s) - 2) (max 0 (int (length s) - 4))"
  define start where "start = (if start0 < 0 then 0 else start0)"
  have "start0 < int (length s)"
    unfolding start0_def by (rule lastRuneStart_bounds) auto
  then have st: "0 \<le> start" "start < int (length s)"
    using assms by (auto simp: start_def)
  then have "drop (nat start) s \<noteq> []"
    by simp
  from DecodeRuneInString_width [OF this]
  have "1 \<le> snd (DecodeRuneInString (drop (nat start) s))"
    and "snd (DecodeRuneInString (drop (nat start) s)) \<le> length s"
    by auto
  then show ?thesis
    using assms unfolding DecodeLastRuneInString_def Let_def start0_def [symmetric]
      start_def [symmetric]
    by (auto simp: Suc_le_eq split: prod.splits)
qed

text \<open>
  \<^verbatim>\<open>strings.TrimSpace\<close> is \<^verbatim>\<open>TrimFunc(s, unicode.IsSpace)\<close> (with a fast path for ASCII
  that gives the same string): \<^verbatim>\<open>TrimLeftFunc\<close> decodes runes from the left,
  \<^verbatim>\<open>TrimRightFunc\<close> looks for the last rune that is not a space with \<^verbatim>\<open>lastIndexFunc\<close>.
\<close>

function TrimLeftSpace :: "string \<Rightarrow> string" where
  "TrimLeftSpace s =
     (if s = [] then []
      else case DecodeRuneInString s of
             (r, n) \<Rightarrow> if IsSpace r then TrimLeftSpace (drop n s) else s)"
  by pat_completeness auto
termination
proof (relation "measure length", goal_cases)
  case 1
  show ?case by simp
next
  case (2 s r n)
  with DecodeRuneInString_width [of s] show ?case
    by (cases "DecodeRuneInString s") auto
qed

declare TrimLeftSpace.simps [simp del]

function lastIndexNotSpace :: "string \<Rightarrow> nat \<Rightarrow> int" where
  "lastIndexNotSpace s i =
     (if i = 0 then - 1
      else case DecodeLastRuneInString (take i s) of
             (r, wid) \<Rightarrow>
               if \<not> IsSpace r then int (i - wid) else lastIndexNotSpace s (i - wid))"
  by pat_completeness auto
termination
proof (relation "measure (\<lambda>(s, i). i)", goal_cases)
  case 1
  show ?case by simp
next
  case (2 s i r wid)
  show ?case
  proof (cases "take i s = []")
    case True
    with 2 show ?thesis
      by (auto simp: DecodeLastRuneInString_def IsSpace_def RuneError_def)
  next
    case False
    from DecodeLastRuneInString_width [OF this] 2 show ?thesis
      by (cases "DecodeLastRuneInString (take i s)") auto
  qed
qed

declare lastIndexNotSpace.simps [simp del]

definition TrimRightSpace :: "string \<Rightarrow> string" where
  "TrimRightSpace s =
     (let i = lastIndexNotSpace s (length s) in
      if 0 \<le> i \<and> 0x80 \<le> (of_char (s ! nat i) :: nat)
      then take (nat i + snd (DecodeRuneInString (drop (nat i) s))) s
      else take (nat (i + 1)) s)"

definition TrimSpace :: "string \<Rightarrow> string" where
  "TrimSpace s = TrimRightSpace (TrimLeftSpace s)"

lemmas TrimSpace_eval =
  TrimSpace_def TrimRightSpace_def TrimLeftSpace.simps lastIndexNotSpace.simps
  DecodeLastRuneInString_def lastRuneStart.simps RuneStart_def IsSpace_def RuneError_def
  validLead_def leadWidth_def accepts_def continuation_def
  rune2_def rune3_def rune4_def Let_def

subsection \<open>Package \<^verbatim>\<open>path/filepath\<close> on Unix\<close>

text \<open>
  \<^verbatim>\<open>filepath.Clean\<close> walks the path element by element: an empty element and \<^verbatim>\<open>.\<close> are
  dropped; \<^verbatim>\<open>..\<close> removes the element written last when there is one to remove, is
  dropped at the root of a rooted path, and is kept at the front of a path that is not
  rooted. \<open>cleanElems\<close> is that loop over the elements with the output kept as the list
  of elements written so far; an empty result is \<^verbatim>\<open>.\<close>.
\<close>

fun cleanElems :: "bool \<Rightarrow> string list \<Rightarrow> string list \<Rightarrow> string list" where
  "cleanElems rooted out [] = out"
| "cleanElems rooted out (e # es) =
     (if e = [] \<or> e = ''.'' then cleanElems rooted out es
      else if e = ''..'' then
        (if out \<noteq> [] \<and> last out \<noteq> ''..'' then cleanElems rooted (butlast out) es
         else if \<not> rooted then cleanElems rooted (out @ [''..'']) es
         else cleanElems rooted out es)
      else cleanElems rooted (out @ [e]) es)"

definition Clean :: "string \<Rightarrow> string" where
  "Clean path =
     (if path = [] then ''.''
      else
        let rooted = (hd path = Separator);
            out = (if rooted then ''/'' else []) @ Join (cleanElems rooted [] (Split path Separator)) ''/''
        in if out = [] then ''.'' else out)"

text \<open>
  The loop of \<^verbatim>\<open>filepath.Rel\<close> that positions both paths at their first differing
  elements. The arguments are \<^verbatim>\<open>base[b0:]\<close> and \<^verbatim>\<open>targ[t0:]\<close>; the result is
  \<^verbatim>\<open>base[b0:bi]\<close>, \<^verbatim>\<open>base[b0:]\<close> and \<^verbatim>\<open>targ[t0:]\<close> when the loop ends.
\<close>

function relLoop :: "string \<Rightarrow> string \<Rightarrow> string \<times> string \<times> string" where
  "relLoop base targ =
     (if base = [] \<or> targ = [] then ([], base, targ)
      else
        let be = takeWhile (\<lambda>c. c \<noteq> Separator) base;
            te = takeWhile (\<lambda>c. c \<noteq> Separator) targ
        in if te \<noteq> be then (be, base, targ)
           else relLoop (drop (length be + 1) base) (drop (length te + 1) targ))"
  by pat_completeness auto
termination
  by (relation "measure (\<lambda>(base, targ). length base)") auto

declare relLoop.simps [simp del]

text \<open>
  \<^verbatim>\<open>filepath.Rel(basepath, targpath)\<close>: a relative path that is equivalent to the target
  when joined to the base. It fails when one path is rooted and the other is not, and
  when the base, after the elements it shares with the target, goes on with a \<^verbatim>\<open>..\<close>
  element (there is no way down from a parent whose name is not known). The result is
  cleaned, as the documentation of \<^verbatim>\<open>Rel\<close> says.
\<close>

definition Rel :: "string \<Rightarrow> string \<Rightarrow> error + string" where
  "Rel basepath targpath =
     (let base0 = Clean basepath;
          targ = Clean targpath
      in
      if targ = base0 then Inr ''.''
      else
        let base = (if base0 = ''.'' then [] else base0);
            baseSlashed = (base \<noteq> [] \<and> hd base = Separator);
            targSlashed = (targ \<noteq> [] \<and> hd targ = Separator)
        in
        if baseSlashed \<noteq> targSlashed then Inl ErrRel
        else
          case relLoop base targ of
            (be, b, t) \<Rightarrow>
              if be = ''..'' \<or> takeWhile (\<lambda>c. c \<noteq> Separator) b = ''..'' then Inl ErrRel
              else if b \<noteq> [] then
                Inr (Clean (''..'' @ concat (replicate (count_list b Separator) ''/..'')
                              @ (if t \<noteq> [] then ''/'' @ t else [])))
              else Inr (Clean t))"

text \<open>\<^verbatim>\<open>filepath.ToSlash\<close> replaces the separator by a slash: on Unix, nothing changes.\<close>

definition ToSlash :: "string \<Rightarrow> string" where
  "ToSlash path = path"

lemmas Rel_eval = Rel_def Clean_def relLoop.simps ToSlash_def Let_def

subsection \<open>The file system, \<^verbatim>\<open>os.Open\<close>, \<^verbatim>\<open>os.Stat\<close> and \<^verbatim>\<open>bufio.Scanner\<close>\<close>

text \<open>
  The file system maps a path to what is there: a file with its bytes, or a directory.
  \<^verbatim>\<open>os.Open\<close> and \<^verbatim>\<open>os.Stat\<close> fail on a path that maps to nothing.
\<close>

datatype node = File string | Dir

type_synonym filesystem = "string \<Rightarrow> node option"

definition IsDir :: "node \<Rightarrow> bool" where
  "IsDir info = (case info of Dir \<Rightarrow> True | File _ \<Rightarrow> False)"

definition MaxScanTokenSize :: nat where
  "MaxScanTokenSize = 65536"

definition dropCR :: "string \<Rightarrow> string" where
  "dropCR data = (if data \<noteq> [] \<and> last data = CHR 0x0D then butlast data else data)"

text \<open>
  The tokens a \<^verbatim>\<open>bufio.Scanner\<close> with the default split function \<^verbatim>\<open>ScanLines\<close> returns for
  the bytes of a file, and the value of \<^verbatim>\<open>scanner.Err()\<close> once \<^verbatim>\<open>Scan\<close> has returned false:
  each line without its end-of-line marker, the last one also when no newline ends it. A
  line that does not fit the buffer of \<^verbatim>\<open>MaxScanTokenSize\<close> bytes stops the scan with
  \<^verbatim>\<open>ErrTooLong\<close>.
\<close>

function ScanLines :: "string \<Rightarrow> string list \<times> error option" where
  "ScanLines data =
     (if data = [] then ([], None)
      else
        let line = takeWhile (\<lambda>c. c \<noteq> CHR 0x0A) data in
        if MaxScanTokenSize \<le> length line then ([], Some ErrTooLong)
        else
          case ScanLines (drop (length line + 1) data) of
            (tokens, err) \<Rightarrow> (dropCR line # tokens, err))"
  by pat_completeness auto
termination
  by (relation "measure length") auto

declare ScanLines.simps [simp del]

section \<open>The exclusion engine\<close>

record GitIgnoreRule =
  Pattern :: string
  IsNegation :: bool
  IsDirectory :: bool

record GitIgnoreParser =
  patterns :: "string list"
  rules :: "GitIgnoreRule list"
  rootDir :: string

definition NewGitIgnoreParser :: "string \<Rightarrow> GitIgnoreParser" where
  "NewGitIgnoreParser root = \<lparr>patterns = [], rules = [], rootDir = root\<rparr>"

text \<open>
  The body of the scanning loop of \<^verbatim>\<open>ParseGitIgnore\<close> for one token of the scanner: the
  parser after the line.
\<close>

definition parseLine :: "GitIgnoreParser \<Rightarrow> string \<Rightarrow> GitIgnoreParser" where
  "parseLine g tok =
     (let line = TrimSpace tok in
      if line = [] \<or> HasPrefix line ''#'' then g
      else
        let g1 = g\<lparr>patterns := patterns g @ [line]\<rparr>;
            rule = \<lparr>Pattern = line, IsNegation = False, IsDirectory = False\<rparr>;
            rule1 = (if HasPrefix line ''!''
                     then rule\<lparr>IsNegation := True, Pattern := drop 1 line\<rparr>
                     else rule);
            rule2 = (if HasSuffix (Pattern rule1) ''/''
                     then rule1\<lparr>IsDirectory := True,
                                Pattern := take (length (Pattern rule1) - 1) (Pattern rule1)\<rparr>
                     else rule1)
        in g1\<lparr>rules := rules g1 @ [rule2]\<rparr>)"

text \<open>
  \<^verbatim>\<open>ParseGitIgnore\<close> returns the parser as the call leaves it and the error it returns
  (\<open>None\<close> for \<^verbatim>\<open>nil\<close>). Opening a directory succeeds, reading it fails.
\<close>

definition ParseGitIgnore ::
  "filesystem \<Rightarrow> GitIgnoreParser \<Rightarrow> string \<Rightarrow> GitIgnoreParser \<times> error option" where
  "ParseGitIgnore fs g gitignorePath =
     (case fs gitignorePath of
        None \<Rightarrow> (g, Some ErrNotExist)
      | Some Dir \<Rightarrow> (g, Some ErrIsDir)
      | Some (File content) \<Rightarrow>
          (case ScanLines content of
             (tokens, err) \<Rightarrow> (foldl parseLine g tokens, err)))"

text \<open>
  The test of one rule in \<^verbatim>\<open>ShouldIgnore\<close>: the pattern against the relative path and,
  when that does not match, against \<^verbatim>\<open>strings.Join(parts[j:], "/")\<close> for \<open>j\<close> from 0 on,
  up to the first match. The error of \<^verbatim>\<open>filepath.Match\<close> is dropped.
\<close>

fun matchParts :: "string \<Rightarrow> string list \<Rightarrow> bool" where
  "matchParts pattern [] = False"
| "matchParts pattern (p # ps) =
     (if fst (Match pattern (Join (p # ps) ''/'')) then True else matchParts pattern ps)"

definition ruleMatched :: "string \<Rightarrow> string \<Rightarrow> bool" where
  "ruleMatched pattern relPath =
     (if fst (Match pattern relPath) then True
      else matchParts pattern (Split relPath Separator))"

text \<open>
  The loop of \<^verbatim>\<open>ShouldIgnore\<close> over the rules, from the last rule to the first: the list
  argument holds the rules still to check, last declared first.
\<close>

fun checkRules :: "filesystem \<Rightarrow> string \<Rightarrow> string \<Rightarrow> GitIgnoreRule list \<Rightarrow> bool" where
  "checkRules fs filePath relPath [] = False"
| "checkRules fs filePath relPath (rule # earlier) =
     (if ruleMatched (Pattern rule) relPath then
        (if IsNegation rule then False
         else if IsDirectory rule
                 \<and> (case fs filePath of None \<Rightarrow> True | Some info \<Rightarrow> \<not> IsDir info)
         then checkRules fs filePath relPath earlier
         else True)
      else checkRules fs filePath relPath earlier)"

text \<open>
  The two ways the loop goes on from a rule to the one declared before it: the rule does
  not match, or it matches, is no negation rule, is a directory-only rule and
  \<^verbatim>\<open>os.Stat\<close> does not say that the candidate is a directory (\<^verbatim>\<open>continue\<close>). The scan
  reaches a rule exactly when it goes on from every rule declared after it.
\<close>

definition passedOver :: "filesystem \<Rightarrow> string \<Rightarrow> string \<Rightarrow> GitIgnoreRule \<Rightarrow> bool" where
  "passedOver fs filePath relPath rule =
     (if ruleMatched (Pattern rule) relPath
      then (if IsNegation rule then False
            else IsDirectory rule
                   \<and> (case fs filePath of None \<Rightarrow> True | Some info \<Rightarrow> \<not> IsDir info))
      else True)"

definition ShouldIgnore :: "filesystem \<Rightarrow> GitIgnoreParser \<Rightarrow> string \<Rightarrow> bool" where
  "ShouldIgnore fs g filePath =
     (case Rel (rootDir g) filePath of
        Inl err \<Rightarrow> False
      | Inr relPath \<Rightarrow> checkRules fs filePath (ToSlash relPath) (rev (rules g)))"

section \<open>The parsing rules in the words of the specification\<close>

text \<open>
  What the specification says a line gives: nothing for a line that is empty after
  trimming or whose first character after trimming is \<^verbatim>\<open>#\<close>; otherwise one rule, a negation
  rule when the line starts with \<^verbatim>\<open>!\<close> (which is stripped), a directory-only rule when what
  is left ends with \<^verbatim>\<open>/\<close> (which is stripped), with what remains as the pattern.
\<close>

definition specRule :: "string \<Rightarrow> GitIgnoreRule option" where
  "specRule tok =
     (let line = TrimSpace tok in
      if line = [] \<or> hd line = CHR ''#'' then None
      else
        let negation = (hd line = CHR ''!'');
            body = (if negation then tl line else line);
            directory = (body \<noteq> [] \<and> last body = CHR ''/'')
        in Some \<lparr>Pattern = (if directory then butlast body else body),
                  IsNegation = negation, IsDirectory = directory\<rparr>)"

text \<open>
  A malformed pattern in the words of the specification: a pattern with a bracket
  expression that is not terminated. \<open>closeBracket\<close> looks for the bracket that closes
  an expression, given what follows the opening bracket (and the \<^verbatim>\<open>^\<close>, if any): a \<^verbatim>\<open>]\<close> that
  is not the first character of the expression and not escaped by a backslash.
  \<open>unterminatedBracket\<close> reads the pattern from the left, skips an escaped character
  and a closed bracket expression, and says whether it meets an opening bracket that
  nothing closes.
\<close>

fun closeBracket :: "string \<Rightarrow> bool \<Rightarrow> string option" where
  "closeBracket [] first = None"
| "closeBracket (c # cs) first =
     (if c = CHR '']'' \<and> \<not> first then Some cs
      else if c = backslash then
        (case cs of [] \<Rightarrow> None | c' # cs' \<Rightarrow> closeBracket cs' False)
      else closeBracket cs False)"

lemma closeBracket_shorter: "closeBracket cs first = Some rest \<Longrightarrow> length rest < length cs"
  by (induction cs first rule: closeBracket.induct) (auto split: if_splits list.splits)

function unterminatedBracket :: "string \<Rightarrow> bool" where
  "unterminatedBracket [] = False"
| "unterminatedBracket (c # cs) =
     (if c = backslash then unterminatedBracket (tl cs)
      else if c = CHR ''['' then
        (case closeBracket (if cs \<noteq> [] \<and> hd cs = CHR ''^'' then tl cs else cs) True of
           None \<Rightarrow> True
         | Some rest \<Rightarrow> unterminatedBracket rest)
      else unterminatedBracket cs)"
  by pat_completeness auto
termination
proof (relation "measure length", goal_cases)
  case (3 c cs rest)
  then have "length rest < length (if cs \<noteq> [] \<and> hd cs = CHR ''^'' then tl cs else cs)"
    by (auto dest: closeBracket_shorter)
  then show ?case by (auto split: if_splits)
qed auto

section \<open>Example rule sets and file systems\<close>

lemmas Parse_eval =
  ParseGitIgnore_def ScanLines.simps MaxScanTokenSize_def dropCR_def parseLine_def
  TrimSpace_eval HasPrefix_def HasSuffix_def NewGitIgnoreParser_def

lemmas Ignore_eval = ShouldIgnore_def Rel_eval ruleMatched_def Match_eval IsDir_def

text \<open>The ignore file with the two lines \<^verbatim>\<open>*.log\<close> and \<^verbatim>\<open>!important.log\<close>, and its rules.\<close>

definition logSource :: string where
  "logSource = ''*.log'' @ [CHR 0x0A] @ ''!important.log'' @ [CHR 0x0A]"

definition logFs :: filesystem where
  "logFs = (\<lambda>p. if p = ''/repo/.gitignore'' then Some (File logSource) else None)"

definition logRules :: "GitIgnoreRule list" where
  "logRules = [\<lparr>Pattern = ''*.log'', IsNegation = False, IsDirectory = False\<rparr>,
               \<lparr>Pattern = ''important.log'', IsNegation = True, IsDirectory = False\<rparr>]"

definition logParser :: GitIgnoreParser where
  "logParser =
     \<lparr>patterns = [''*.log'', ''!important.log''], rules = logRules, rootDir = ''/repo''\<rparr>"

text \<open>A parser rooted at \<^verbatim>\<open>/a/b\<close> with the one rule \<^verbatim>\<open>*.log\<close>.\<close>

definition outsideParser :: GitIgnoreParser where
  "outsideParser =
     \<lparr>patterns = [''*.log''],
      rules = [\<lparr>Pattern = ''*.log'', IsNegation = False, IsDirectory = False\<rparr>],
      rootDir = ''/a/b''\<rparr>"




text \<open>
  The ignore file with the one line \<^verbatim>\<open>build/\<close>, in a file system where \<^verbatim>\<open>/repo/build\<close> is a
  file and in one where it is a directory.
\<close>

definition buildRule :: GitIgnoreRule where
  "buildRule = \<lparr>Pattern = ''build'', IsNegation = False, IsDirectory = True\<rparr>"

definition buildParser :: GitIgnoreParser where
  "buildParser = \<lparr>patterns = [''build/''], rules = [buildRule], rootDir = ''/repo''\<rparr>"

definition buildSource :: string where
  "buildSource = ''build/'' @ [CHR 0x0A]"

definition buildFileFs :: filesystem where
  "buildFileFs =
     (\<lambda>p. if p = ''/repo/.gitignore'' then Some (File buildSource)
          else if p = ''/repo/build'' then Some (File ''#!/bin/sh'')
          else None)"

definition buildDirFs :: filesystem where
  "buildDirFs =
     (\<lambda>p. if p = ''/repo/.gitignore'' then Some (File buildSource)
          else if p = ''/repo/build'' then Some Dir
          else None)"

text \<open>
  Two ignore files, \<^verbatim>\<open>/repo/.gitignore\<close> with the line \<^verbatim>\<open>*.tmp\<close> and \<^verbatim>\<open>/repo/sub/.gitignore\<close>
  with the two lines of \<open>logSource\<close>, and the parser after the first one.
\<close>

definition twoFs :: filesystem where
  "twoFs =
     (\<lambda>p. if p = ''/repo/.gitignore'' then Some (File (''*.tmp'' @ [CHR 0x0A]))
          else if p = ''/repo/sub/.gitignore'' then Some (File logSource)
          else None)"

definition tmpParser :: GitIgnoreParser where
  "tmpParser =
     \<lparr>patterns = [''*.tmp''],
      rules = [\<lparr>Pattern = ''*.tmp'', IsNegation = False, IsDirectory = False\<rparr>],
      rootDir = ''/repo''\<rparr>"

text \<open>
  The ignore file with the lines \<^verbatim>\<open>build\<close> and \<^verbatim>\<open>!build/\<close>, its rules, and a file system where
  \<^verbatim>\<open>/repo/build\<close> is a file.
\<close>

definition keepBuildSource :: string where
  "keepBuildSource = ''build'' @ [CHR 0x0A] @ ''!build/'' @ [CHR 0x0A]"

definition keepBuildFs :: filesystem where
  "keepBuildFs =
     (\<lambda>p. if p = ''/repo/.gitignore'' then Some (File keepBuildSource)
          else if p = ''/repo/build'' then Some (File ''#!/bin/sh'')
          else None)"

definition plainBuildRule :: GitIgnoreRule where
  "plainBuildRule = \<lparr>Pattern = ''build'', IsNegation = False, IsDirectory = False\<rparr>"

definition keepBuildRule :: GitIgnoreRule where
  "keepBuildRule = \<lparr>Pattern = ''build'', IsNegation = True, IsDirectory = True\<rparr>"

definition keepBuildParser :: GitIgnoreParser where
  "keepBuildParser =
     \<lparr>patterns = [''build'', ''!build/''], rules = [plainBuildRule, keepBuildRule],
      rootDir = ''/repo''\<rparr>"

text \<open>
  The ignore file with the lines \<^verbatim>\<open>*.log\<close> and \<^verbatim>\<open>[abc\<close>, the second one a pattern whose
  bracket expression is not terminated.
\<close>

definition badSource :: string where
  "badSource = ''*.log'' @ [CHR 0x0A] @ ''[abc'' @ [CHR 0x0A]"

definition badFs :: filesystem where
  "badFs = (\<lambda>p. if p = ''/repo/.gitignore'' then Some (File badSource) else None)"

definition logRule :: GitIgnoreRule where
  "logRule = \<lparr>Pattern = ''*.log'', IsNegation = False, IsDirectory = False\<rparr>"

definition badRule :: GitIgnoreRule where
  "badRule = \<lparr>Pattern = ''[abc'', IsNegation = False, IsDirectory = False\<rparr>"

definition badParser :: GitIgnoreParser where
  "badParser = \<lparr>patterns = [''*.log'', ''[abc''], rules = [logRule, badRule], rootDir = ''/repo''\<rparr>"

text \<open>
  The ignore file with the lines \<^verbatim>\<open>!build/\<close> and \<^verbatim>\<open>build\<close>, in that order, and its rules; and
  the ignore file with the lines \<^verbatim>\<open>build\<close>, \<^verbatim>\<open>!build/\<close>, \<^verbatim>\<open>build/\<close> and \<^verbatim>\<open>*.log\<close>, and its rules.
  In both file systems \<^verbatim>\<open>/repo/build\<close> is a file.
\<close>

definition shadowSource :: string where
  "shadowSource = ''!build/'' @ [CHR 0x0A] @ ''build'' @ [CHR 0x0A]"

definition shadowFs :: filesystem where
  "shadowFs =
     (\<lambda>p. if p = ''/repo/.gitignore'' then Some (File shadowSource)
          else if p = ''/repo/build'' then Some (File ''#!/bin/sh'')
          else None)"

definition shadowParser :: GitIgnoreParser where
  "shadowParser =
     \<lparr>patterns = [''!build/'', ''build''], rules = [keepBuildRule, plainBuildRule],
      rootDir = ''/repo''\<rparr>"

definition reachSource :: string where
  "reachSource = ''build'' @ [CHR 0x0A] @ ''!build/'' @ [CHR 0x0A] @ ''build/'' @ [CHR 0x0A]
                   @ ''*.log'' @ [CHR 0x0A]"

definition reachFs :: filesystem where
  "reachFs =
     (\<lambda>p. if p = ''/repo/.gitignore'' then Some (File reachSource)
          else if p = ''/repo/build'' then Some (File ''#!/bin/sh'')
          else None)"

definition reachParser :: GitIgnoreParser where
  "reachParser =
     \<lparr>patterns = [''build'', ''!build/'', ''build/'', ''*.log''],
      rules = [plainBuildRule, keepBuildRule, buildRule, logRule],
      rootDir = ''/repo''\<rparr>"

section \<open>Properties of the rule evaluator and the rule parser\<close>

subsection \<open>Helper lemmas\<close>

lemma stat_not_dir_iff:
  "(case fs p of None \<Rightarrow> True | Some info \<Rightarrow> \<not> IsDir info) = (fs p \<noteq> Some Dir)"
  by (auto simp: IsDir_def split: option.splits node.splits)

lemma checkRules_skip_unmatched:
  "\<forall>rule \<in> set later. \<not> ruleMatched (Pattern rule) relPath \<Longrightarrow>
     checkRules fs filePath relPath (later @ rs) = checkRules fs filePath relPath rs"
  by (induction later) auto

lemma checkRules_passed_over:
  "\<forall>rule \<in> set later. passedOver fs filePath relPath rule \<Longrightarrow>
     checkRules fs filePath relPath (later @ rs) = checkRules fs filePath relPath rs"
  by (induction later) (auto simp: passedOver_def split: if_splits)






lemma HasPrefix_char: "HasPrefix s [c] = (s \<noteq> [] \<and> hd s = c)"
  by (cases s) (auto simp: HasPrefix_def)

lemma HasSuffix_char: "HasSuffix s [c] = (s \<noteq> [] \<and> last s = c)"
proof (cases s rule: rev_cases)
  case Nil
  then show ?thesis by (simp add: HasSuffix_def)
next
  case (snoc xs x)
  then show ?thesis by (auto simp: HasSuffix_def)
qed

lemma parseLine_specRule:
  "parseLine g tok =
     (case specRule tok of
        None \<Rightarrow> g
      | Some rule \<Rightarrow>
          g\<lparr>patterns := patterns g @ [TrimSpace tok], rules := rules g @ [rule]\<rparr>)"
  by (cases "TrimSpace tok")
    (auto simp: parseLine_def specRule_def Let_def HasPrefix_char HasSuffix_char
       butlast_conv_take drop_Suc)

lemma foldl_parseLine_specRule:
  "rules (foldl parseLine g tokens) = rules g @ List.map_filter specRule tokens"
proof (induction tokens rule: rev_induct)
  case Nil
  show ?case by (simp add: List.map_filter_simps)
next
  case (snoc t ts)
  then show ?case
    by (simp add: parseLine_specRule List.map_filter_def split: option.splits)
qed

lemma parseLine_additive:
  "rules (parseLine g tok) = rules g @ rules (parseLine (NewGitIgnoreParser root) tok)
   \<and> patterns (parseLine g tok)
       = patterns g @ patterns (parseLine (NewGitIgnoreParser root) tok)"
  by (simp add: parseLine_def Let_def NewGitIgnoreParser_def)

lemma foldl_parseLine_additive:
  "rules (foldl parseLine g tokens)
     = rules g @ rules (foldl parseLine (NewGitIgnoreParser root) tokens)
   \<and> patterns (foldl parseLine g tokens)
     = patterns g @ patterns (foldl parseLine (NewGitIgnoreParser root) tokens)"
proof (induction tokens rule: rev_induct)
  case Nil
  show ?case by (simp add: NewGitIgnoreParser_def)
next
  case (snoc t ts)
  show ?case
    using snoc parseLine_additive [of "foldl parseLine g ts" t root]
      parseLine_additive [of "foldl parseLine (NewGitIgnoreParser root) ts" t root]
    by simp
qed

lemma ParseGitIgnore_additive:
  "rules (fst (ParseGitIgnore fs g path))
     = rules g @ rules (fst (ParseGitIgnore fs (NewGitIgnoreParser root) path))
   \<and> patterns (fst (ParseGitIgnore fs g path))
     = patterns g @ patterns (fst (ParseGitIgnore fs (NewGitIgnoreParser root) path))"
  using foldl_parseLine_additive [of g _ root]
  by (auto simp: ParseGitIgnore_def NewGitIgnoreParser_def
      split: option.splits node.splits prod.splits)

lemma TrimSpace_ascii_ends:
  assumes "s \<noteq> []"
    and "(of_char (hd s) :: nat) < 0x80" and "\<not> IsSpace (of_char (hd s))"
    and "(of_char (last s) :: nat) < 0x80" and "\<not> IsSpace (of_char (last s))"
  shows "TrimSpace s = s"
proof -
  have left: "TrimLeftSpace s = s"
    using assms by (cases s) (subst TrimLeftSpace.simps, simp add: Let_def)+
  have i: "nat (int (length s) - 1) = length s - Suc 0"
    by simp
  have dl: "DecodeLastRuneInString s = (of_char (last s), 1)"
    using assms by (simp add: DecodeLastRuneInString_def Let_def last_conv_nth i)
  have idx: "lastIndexNotSpace s (length s) = int (length s - 1)"
    using assms dl by (subst lastIndexNotSpace.simps) simp
  have "TrimRightSpace s = s"
    using assms idx by (simp add: TrimRightSpace_def Let_def last_conv_nth nat_add_distrib)
  with left show ?thesis
    by (simp add: TrimSpace_def)
qed

subsection \<open>A pattern that matches is well formed\<close>

lemma getEsc_append:
  assumes "getEsc chunk = Some (r, nchunk)"
  shows "getEsc (chunk @ rest) = Some (r, nchunk @ rest)"
proof -
  define chunk' where "chunk' = (if hd chunk = backslash then tl chunk else chunk)"
  from assms have ne: "chunk \<noteq> []" "hd chunk \<noteq> CHR ''-''" "hd chunk \<noteq> CHR '']''" "chunk' \<noteq> []"
    by (auto simp: getEsc_def chunk'_def Let_def split: if_splits)
  obtain r' n where d: "DecodeRuneInString chunk' = (r', n)"
    by (cases "DecodeRuneInString chunk'") auto
  from assms ne d have res: "\<not> (r' = RuneError \<and> n = 1)" "drop n chunk' \<noteq> []"
      "r = r'" "nchunk = drop n chunk'"
    by (auto simp: getEsc_def chunk'_def [symmetric] Let_def split: if_splits)
  have d': "DecodeRuneInString (chunk' @ rest) = (r', n)"
    using d res(1) ne(4) by (rule DecodeRuneInString_append)
  have app: "(if hd (chunk @ rest) = backslash then tl (chunk @ rest) else chunk @ rest) = chunk' @ rest"
    using ne(1) by (simp add: chunk'_def)
  have "n < length chunk'"
    using res(2) by simp
  then have dr: "drop n (chunk' @ rest) = drop n chunk' @ rest"
    by simp
  show ?thesis
    using ne res d' dr unfolding getEsc_def app Let_def by simp
qed

lemma classRanges_Nil: "classRanges [] r match nrange = None"
  by (subst classRanges.simps) (simp add: getEsc_def)

lemma classRanges_step:
  "\<not> (chunk \<noteq> [] \<and> hd chunk = CHR '']'' \<and> 0 < nrange) \<Longrightarrow>
     classRanges chunk r match nrange =
       (case getEsc chunk of
          None \<Rightarrow> None
        | Some (lo, chunk1) \<Rightarrow>
            if hd chunk1 = CHR ''-'' then
              (case getEsc (tl chunk1) of
                 None \<Rightarrow> None
               | Some (hi, chunk2) \<Rightarrow>
                   classRanges chunk2 r (match \<or> (lo \<le> r \<and> r \<le> hi)) (nrange + 1))
            else classRanges chunk1 r (match \<or> (lo \<le> r \<and> r \<le> lo)) (nrange + 1))"
  by (subst classRanges.simps, rule if_not_P, assumption)

lemma classRanges_append:
  "classRanges chunk r match nrange = Some (chunk', m) \<Longrightarrow>
     \<exists>m'. classRanges (chunk @ rest) r' match' nrange = Some (chunk' @ rest, m')"
proof (induction chunk r match nrange arbitrary: match' rule: classRanges.induct)
  case (1 chunk r match nrange)
  note eq = "1.prems" [unfolded classRanges.simps [of chunk r match nrange]]
  show ?case
  proof (cases "chunk \<noteq> [] \<and> hd chunk = CHR '']'' \<and> 0 < nrange")
    case True
    with eq have "chunk' = tl chunk"
      by simp
    with True show ?thesis
      by (subst classRanges.simps) auto
  next
    case False
    with eq obtain lo chunk1 where g1: "getEsc chunk = Some (lo, chunk1)"
      by (auto split: option.splits)
    have ne1: "chunk1 \<noteq> []"
      using g1 by (rule getEsc_nonempty)
    from g1 have cne: "chunk \<noteq> []"
      by (auto simp: getEsc_def)
    have F': "\<not> (chunk @ rest \<noteq> [] \<and> hd (chunk @ rest) = CHR '']'' \<and> 0 < nrange)"
      using False cne by simp
    have g1': "getEsc (chunk @ rest) = Some (lo, chunk1 @ rest)"
      using g1 by (rule getEsc_append)
    show ?thesis
    proof (cases "hd chunk1 = CHR ''-''")
      case True
      with False g1 eq obtain hi chunk2 where g2: "getEsc (tl chunk1) = Some (hi, chunk2)"
        by (auto split: option.splits)
      from False g1 True g2 eq
      have "classRanges chunk2 r (match \<or> (lo \<le> r \<and> r \<le> hi)) (nrange + 1) = Some (chunk', m)"
        by (auto split: if_splits)
      from "1.IH"(1) [OF False g1 refl True g2 refl this]
      obtain m' where
        "classRanges (chunk2 @ rest) r' (match' \<or> (lo \<le> r' \<and> r' \<le> hi)) (nrange + 1)
           = Some (chunk' @ rest, m')"
        by blast
      moreover have "getEsc (tl (chunk1 @ rest)) = Some (hi, chunk2 @ rest)"
        using getEsc_append [OF g2] ne1 by simp
      moreover have "hd (chunk1 @ rest) = CHR ''-''"
        using True ne1 by simp
      ultimately show ?thesis
        using g1' by (simp add: classRanges_step [OF F'])
    next
      case F2: False
      from False g1 F2 eq
      have "classRanges chunk1 r (match \<or> (lo \<le> r \<and> r \<le> lo)) (nrange + 1) = Some (chunk', m)"
        by (auto split: if_splits)
      from "1.IH"(2) [OF False g1 refl F2 this]
      obtain m' where
        "classRanges (chunk1 @ rest) r' (match' \<or> (lo \<le> r' \<and> r' \<le> lo)) (nrange + 1)
           = Some (chunk' @ rest, m')"
        by blast
      moreover have "hd (chunk1 @ rest) \<noteq> CHR ''-''"
        using F2 ne1 by simp
      ultimately show ?thesis
        using g1' by (simp add: classRanges_step [OF F'])
    qed
  qed
qed

lemma wellFormed_bracket:
  assumes "classRanges (if chunk \<noteq> [] \<and> hd chunk = CHR ''^'' then tl chunk else chunk) r match 0
             = Some (chunk'', m)"
  shows "wellFormed (CHR ''['' # chunk @ rest) = wellFormed (chunk'' @ rest)"
proof -
  let ?c = "if chunk \<noteq> [] \<and> hd chunk = CHR ''^'' then tl chunk else chunk"
  from assms have "chunk \<noteq> []"
    by (auto simp: classRanges_Nil split: if_splits)
  then have "(if chunk @ rest \<noteq> [] \<and> hd (chunk @ rest) = CHR ''^'' then tl (chunk @ rest)
              else chunk @ rest) = ?c @ rest"
    by simp
  moreover from classRanges_append [OF assms, of rest 0 False]
  obtain m' where "classRanges (?c @ rest) 0 False 0 = Some (chunk'' @ rest, m')"
    by blast
  ultimately show ?thesis
    by simp
qed

lemma matchChunkLoop_wellFormed:
  "matchChunkLoop chunk s failed \<noteq> ChunkErr \<Longrightarrow>
     wellFormed (chunk @ rest) = wellFormed rest"
proof (induction chunk s failed rule: matchChunkLoop.induct)
  case (1 s failed)
  show ?case by simp
next
  case (2 c chunk s failed0)
  define failed where "failed = (failed0 \<or> s = [])"
  show ?case
  proof (cases "c = CHR ''[''")
    case True
    define r where "r = (if failed then 0 else fst (DecodeRuneInString s))"
    define s' where "s' = (if failed then s else drop (snd (DecodeRuneInString s)) s)"
    define negated where "negated = (chunk \<noteq> [] \<and> hd chunk = CHR ''^'')"
    define chunk' where "chunk' = (if negated then tl chunk else chunk)"
    from "2.prems" True obtain chunk'' match
      where cr: "classRanges chunk' r False 0 = Some (chunk'', match)"
        and rec: "matchChunkLoop chunk'' s' (failed \<or> match = negated) \<noteq> ChunkErr"
      by (auto simp: Let_def failed_def r_def s'_def negated_def chunk'_def
          split: option.splits)
    have "wellFormed (chunk'' @ rest) = wellFormed rest"
      using "2.IH"(1) [OF failed_def True r_def s'_def negated_def chunk'_def cr refl rec] .
    moreover have "wellFormed (CHR ''['' # chunk @ rest) = wellFormed (chunk'' @ rest)"
      using cr unfolding chunk'_def negated_def by (rule wellFormed_bracket)
    ultimately show ?thesis
      using True by simp
  next
    case nb: False
    show ?thesis
    proof (cases "c = CHR ''?''")
      case True
      with nb "2.prems" "2.IH"(2,3) [OF failed_def nb True] show ?thesis
        by (cases failed) (auto simp: Let_def failed_def)
    next
      case nq: False
      show ?thesis
      proof (cases "c = backslash")
        case True
        with nb nq "2.prems" obtain c' chunk' where ch: "chunk = c' # chunk'"
          by (cases chunk) auto
        with True nb nq "2.prems" "2.IH"(4,5) [OF failed_def nb nq True ch] show ?thesis
          by (cases failed) (auto simp: Let_def failed_def)
      next
        case False
        with nb nq "2.prems" "2.IH"(6,7) [OF failed_def nb nq False] show ?thesis
          by (cases failed) (auto simp: Let_def failed_def)
      qed
    qed
  qed
qed


lemma starLoop_ok:
  "starLoop chunk lastChunk name = ChunkOk t \<Longrightarrow> \<exists>s. matchChunk chunk s \<noteq> ChunkErr"
proof (induction name)
  case Nil
  then show ?case by simp
next
  case (Cons c name)
  show ?case
  proof (cases "matchChunk chunk name = ChunkErr")
    case True
    with Cons.prems show ?thesis
      by (auto split: if_splits)
  next
    case False
    then show ?thesis by blast
  qed
qed

lemma matchStep_ok:
  "matchStep star chunk rest name = ChunkOk t \<Longrightarrow> \<exists>s. matchChunk chunk s \<noteq> ChunkErr"
proof (cases "matchChunk chunk name = ChunkErr")
  case True
  assume "matchStep star chunk rest name = ChunkOk t"
  with True show ?thesis
    by (simp add: matchStep_def)
next
  case False
  then show ?thesis by blast
qed

lemma wellFormed_stars:
  "\<forall>c \<in> set stars. c = CHR ''*'' \<Longrightarrow> wellFormed (stars @ p) = wellFormed p"
  by (induction stars) auto

lemma scanIdx_zero:
  "scanIdx p inrange = 0 \<Longrightarrow> p = [] \<or> hd p = CHR ''*''"
  using scanIdx_pos [of p inrange] by auto

lemma scanChunk_split:
  assumes "scanChunk pattern = (star, chunk, rest)"
  shows "\<exists>stars. (\<forall>c \<in> set stars. c = CHR ''*'') \<and> pattern = stars @ chunk @ rest
           \<and> (chunk = [] \<longrightarrow> rest = [])"
proof -
  define p' where "p' = dropWhile (\<lambda>c. c = CHR ''*'') pattern"
  define stars where "stars = takeWhile (\<lambda>c. c = CHR ''*'') pattern"
  from assms have ch: "chunk = take (scanIdx p' False) p'"
    and re: "rest = drop (scanIdx p' False) p'"
    by (auto simp: scanChunk_def Let_def p'_def)
  have a: "\<forall>c \<in> set stars. c = CHR ''*''"
    unfolding stars_def by (auto dest: set_takeWhileD)
  have b: "pattern = stars @ chunk @ rest"
    unfolding stars_def ch re p'_def by simp
  have hd: "p' = [] \<or> hd p' \<noteq> CHR ''*''"
    unfolding p'_def using hd_dropWhile [of "\<lambda>c. c = CHR ''*''" pattern] by auto
  have c: "rest = []" if "chunk = []"
  proof -
    from that ch have "scanIdx p' False = 0 \<or> p' = []"
      by auto
    with scanIdx_zero [of p' False] hd have "p' = []"
      by auto
    with re show ?thesis by simp
  qed
  from a b c show ?thesis by blast
qed

lemma Match_wellFormed: "fst (Match pattern name) \<Longrightarrow> wellFormed pattern"
proof (induction pattern name rule: Match.induct)
  case (1 pattern name)
  show ?case
  proof (cases "pattern = []")
    case True
    then show ?thesis by simp
  next
    case False
    obtain star chunk rest where sc: "scanChunk pattern = (star, chunk, rest)"
      by (cases "scanChunk pattern") auto
    from scanChunk_split [OF sc] obtain stars
      where st: "\<forall>c \<in> set stars. c = CHR ''*''" and p: "pattern = stars @ chunk @ rest"
        and e: "chunk = [] \<longrightarrow> rest = []"
      by blast
    show ?thesis
    proof (cases "chunk = []")
      case True
      with e p st show ?thesis
        using wellFormed_stars [of stars "[]"] by simp
    next
      case ne: False
      from "1.prems" False sc ne obtain t
        where ms: "matchStep star chunk rest name = ChunkOk t" and m: "fst (Match rest t)"
        by (subst (asm) Match.simps) (auto split: chunkres.splits)
      have "wellFormed rest"
        using "1.IH" [OF False sc [symmetric] refl _ ms m] ne by simp
      moreover from matchStep_ok [OF ms] obtain s where "matchChunk chunk s \<noteq> ChunkErr"
        by blast
      then have "wellFormed (chunk @ rest) = wellFormed rest"
        unfolding matchChunk_def by (rule matchChunkLoop_wellFormed)
      ultimately show ?thesis
        using p st wellFormed_stars [of stars "chunk @ rest"] by simp
    qed
  qed
qed

subsection \<open>A pattern with an unterminated bracket is not well formed\<close>

lemma closeBracket_skip_high:
  "\<forall>i<k. (0x80::nat) \<le> of_char (s ! i) \<Longrightarrow> k \<le> length s \<Longrightarrow>
     closeBracket s False = closeBracket (drop k s) False"
proof (induction k arbitrary: s)
  case 0
  show ?case by simp
next
  case (Suc k)
  then obtain c cs where s: "s = c # cs"
    by (cases s) auto
  from Suc.prems s have c: "(0x80::nat) \<le> of_char c"
    by auto
  then have "c \<noteq> CHR '']''" "c \<noteq> backslash"
    by auto
  moreover have "closeBracket cs False = closeBracket (drop k cs) False"
    using Suc.prems s by (intro Suc.IH) auto
  ultimately show ?case
    using s by simp
qed

lemma closeBracket_rune:
  assumes "DecodeRuneInString s = (r, n)" and "s \<noteq> []"
    and "hd s \<noteq> CHR '']'' \<or> first" and "hd s \<noteq> backslash"
  shows "closeBracket s first = closeBracket (drop n s) False"
proof -
  from assms obtain c cs where s: "s = c # cs"
    by (cases s) auto
  from DecodeRuneInString_width [OF assms(2)] assms(1) have n: "1 \<le> n" "n \<le> length s"
    by auto
  have "\<forall>i<n - 1. (0x80::nat) \<le> of_char (cs ! i)"
  proof (intro allI impI)
    fix i
    assume "i < n - 1"
    then have "1 \<le> Suc i" "Suc i < n"
      by auto
    from DecodeRuneInString_continuation [OF assms(1) this] s
    show "(0x80::nat) \<le> of_char (cs ! i)"
      by simp
  qed
  then have "closeBracket cs False = closeBracket (drop (n - 1) cs) False"
    using n s by (intro closeBracket_skip_high) auto
  moreover have "drop n s = drop (n - 1) cs"
    using n s by (cases n) auto
  moreover have "closeBracket s first = closeBracket cs False"
    using assms(3,4) s by auto
  ultimately show ?thesis by simp
qed

lemma getEsc_closeBracket:
  assumes "getEsc chunk = Some (r, nchunk)"
  shows "closeBracket chunk first = closeBracket nchunk False"
proof -
  define chunk' where "chunk' = (if hd chunk = backslash then tl chunk else chunk)"
  from assms have ne: "chunk \<noteq> []" "hd chunk \<noteq> CHR ''-''" "hd chunk \<noteq> CHR '']''" "chunk' \<noteq> []"
    by (auto simp: getEsc_def chunk'_def Let_def split: if_splits)
  obtain r' n where d: "DecodeRuneInString chunk' = (r', n)"
    by (cases "DecodeRuneInString chunk'") auto
  from assms ne d have res: "nchunk = drop n chunk'"
    by (auto simp: getEsc_def chunk'_def [symmetric] Let_def split: if_splits)
  from DecodeRuneInString_width [OF ne(4)] d have n: "1 \<le> n" "n \<le> length chunk'"
    by auto
  show ?thesis
  proof (cases "hd chunk = backslash")
    case True
    with ne obtain c cs where ch: "chunk = backslash # c # cs" "chunk' = c # cs"
      by (cases chunk; cases chunk') (auto simp: chunk'_def)
    have "\<forall>i<n - 1. (0x80::nat) \<le> of_char (cs ! i)"
    proof (intro allI impI)
      fix i
      assume "i < n - 1"
      then have "1 \<le> Suc i" "Suc i < n"
        by auto
      from DecodeRuneInString_continuation [OF d this] ch
      show "(0x80::nat) \<le> of_char (cs ! i)"
        by simp
    qed
    then have "closeBracket cs False = closeBracket (drop (n - 1) cs) False"
      using n ch by (intro closeBracket_skip_high) auto
    moreover have "nchunk = drop (n - 1) cs"
      using res n ch by (cases n) auto
    moreover have "closeBracket chunk first = closeBracket cs False"
      using ch by simp
    ultimately show ?thesis by simp
  next
    case False
    then have "chunk' = chunk"
      by (simp add: chunk'_def)
    with closeBracket_rune [of chunk r' n first] d ne False res show ?thesis
      by simp
  qed
qed

lemma classRanges_closeBracket:
  "classRanges chunk r match nrange = Some (rest, m) \<Longrightarrow>
     closeBracket chunk (nrange = 0) = Some rest"
proof (induction chunk r match nrange rule: classRanges.induct)
  case (1 chunk r match nrange)
  note eq = "1.prems" [unfolded classRanges.simps [of chunk r match nrange]]
  show ?case
  proof (cases "chunk \<noteq> [] \<and> hd chunk = CHR '']'' \<and> 0 < nrange")
    case True
    with eq show ?thesis
      by (cases chunk) auto
  next
    case False
    with eq obtain lo chunk1 where g1: "getEsc chunk = Some (lo, chunk1)"
      by (auto split: option.splits)
    have ne1: "chunk1 \<noteq> []"
      using g1 by (rule getEsc_nonempty)
    have c1: "closeBracket chunk (nrange = 0) = closeBracket chunk1 False"
      using g1 by (rule getEsc_closeBracket)
    show ?thesis
    proof (cases "hd chunk1 = CHR ''-''")
      case True
      with False g1 eq obtain hi chunk2 where g2: "getEsc (tl chunk1) = Some (hi, chunk2)"
        by (auto split: option.splits)
      from False g1 True g2 eq
      have "classRanges chunk2 r (match \<or> (lo \<le> r \<and> r \<le> hi)) (nrange + 1) = Some (rest, m)"
        by (auto split: if_splits)
      from "1.IH"(1) [OF False g1 refl True g2 refl this]
      have "closeBracket chunk2 False = Some rest"
        by simp
      moreover have "closeBracket (tl chunk1) False = closeBracket chunk2 False"
        using g2 by (rule getEsc_closeBracket)
      moreover have "closeBracket chunk1 False = closeBracket (tl chunk1) False"
        using True ne1 by (cases chunk1) auto
      ultimately show ?thesis
        using c1 by simp
    next
      case F2: False
      from False g1 F2 eq
      have "classRanges chunk1 r (match \<or> (lo \<le> r \<and> r \<le> lo)) (nrange + 1) = Some (rest, m)"
        by (auto split: if_splits)
      from "1.IH"(2) [OF False g1 refl F2 this]
      have "closeBracket chunk1 False = Some rest"
        by simp
      with c1 show ?thesis by simp
    qed
  qed
qed

lemma unterminatedBracket_not_wellFormed:
  "unterminatedBracket pattern \<Longrightarrow> \<not> wellFormed pattern"
proof (induction pattern rule: unterminatedBracket.induct)
  case 1
  then show ?case by simp
next
  case (2 c cs)
  show ?case
  proof (cases "c = backslash")
    case True
    with 2 show ?thesis
      by (cases cs) auto
  next
    case nb: False
    show ?thesis
    proof (cases "c = CHR ''[''")
      case True
      let ?c = "if cs \<noteq> [] \<and> hd cs = CHR ''^'' then tl cs else cs"
      show ?thesis
      proof (cases "classRanges ?c 0 False 0")
        case None
        with True show ?thesis by simp
      next
        case (Some res)
        then obtain chunk' m where cr: "classRanges ?c 0 False 0 = Some (chunk', m)"
          by (cases res) auto
        from classRanges_closeBracket [OF cr] have cb: "closeBracket ?c True = Some chunk'"
          by simp
        with "2.prems" nb True have "unterminatedBracket chunk'"
          by simp
        from "2.IH"(2) [OF nb True cb this] cr True show ?thesis
          by simp
      qed
    next
      case False
      with nb 2 show ?thesis by simp
    qed
  qed
qed

lemma unterminatedBracket_never_matches:
  "unterminatedBracket pattern \<Longrightarrow> fst (Match pattern name) = False"
  using Match_wellFormed unterminatedBracket_not_wellFormed by blast

lemma Match_error_is_no_match: "snd (Match pattern name) \<noteq> None \<Longrightarrow> fst (Match pattern name) = False"
proof (induction pattern name rule: Match.induct)
  case (1 pattern name)
  show ?case
  proof (cases "pattern = []")
    case True
    with "1.prems" show ?thesis
      by (subst (asm) Match.simps) auto
  next
    case False
    obtain star chunk rest where sc: "scanChunk pattern = (star, chunk, rest)"
      by (cases "scanChunk pattern") auto
    show ?thesis
    proof (cases "star \<and> chunk = []")
      case True
      with "1.prems" False sc show ?thesis
        by (subst (asm) Match.simps) auto
    next
      case ns: False
      show ?thesis
      proof (cases "matchStep star chunk rest name")
        case ChunkErr
        with False sc ns show ?thesis
          by (subst Match.simps) auto
      next
        case ChunkFail
        with False sc ns show ?thesis
          by (subst Match.simps) auto
      next
        case (ChunkOk t)
        with False sc ns have eq: "Match pattern name = Match rest t"
          by (subst Match.simps) auto
        with "1.IH" [OF False sc [symmetric] refl ns ChunkOk] "1.prems" show ?thesis
          by simp
      qed
    qed
  qed
qed

lemma checkRules_drop_unmatched:
  "\<not> ruleMatched (Pattern rule) relPath \<Longrightarrow>
     checkRules fs filePath relPath (later @ rule # earlier)
       = checkRules fs filePath relPath (later @ earlier)"
  by (induction later) auto

lemma matchParts_never:
  "\<forall>name. \<not> fst (Match pattern name) \<Longrightarrow> \<not> matchParts pattern parts"
  by (induction parts) auto

lemma checkRules_no_match:
  "\<forall>rule \<in> set rs. \<not> ruleMatched (Pattern rule) relPath \<Longrightarrow>
     checkRules fs filePath relPath rs = False"
  by (induction rs) auto

text \<open>
  Claim C1. The rules parsed from the two lines \<^verbatim>\<open>*.log\<close> and \<^verbatim>\<open>!important.log\<close>, in that
  order, keep \<^verbatim>\<open>important.log\<close> and ignore \<^verbatim>\<open>other.log\<close>, in the root \<^verbatim>\<open>/repo\<close> and for the
  relative paths whatever the file path and the file system are. The rules are scanned
  from the last one to the first: the last rule decides when it matches (a negation rule
  answers "do not ignore" at once), and with the two rules in the other order
  \<^verbatim>\<open>important.log\<close> is ignored.
\<close>

theorem negation_overrides_earlier_rule:
  "ParseGitIgnore logFs (NewGitIgnoreParser ''/repo'') ''/repo/.gitignore'' = (logParser, None)
   \<and> ShouldIgnore fs logParser ''/repo/important.log'' = False
   \<and> ShouldIgnore fs logParser ''/repo/other.log'' = True
   \<and> checkRules fs filePath ''important.log'' (rev logRules) = False
   \<and> checkRules fs filePath ''other.log'' (rev logRules) = True
   \<and> checkRules fs filePath ''important.log'' (rev (rev logRules)) = True
   \<and> checkRules fs filePath relPath (rev (rs @ [rule])) =
        (if ruleMatched (Pattern rule) relPath then
           (if IsNegation rule then False
            else if IsDirectory rule
                    \<and> (case fs filePath of None \<Rightarrow> True | Some info \<Rightarrow> \<not> IsDir info)
            then checkRules fs filePath relPath (rev rs)
            else True)
         else checkRules fs filePath relPath (rev rs))"
  by (simp add: Parse_eval Ignore_eval logFs_def logSource_def logParser_def logRules_def)

text \<open>
  Claim C4, as stated, fails: a path outside the root that \<^verbatim>\<open>filepath.Rel\<close> can express with
  \<^verbatim>\<open>..\<close> elements is checked against the rules like any other. With the root \<^verbatim>\<open>/a/b\<close> and the
  rule \<^verbatim>\<open>*.log\<close>, the path \<^verbatim>\<open>/a/c/x.log\<close> is ignored.
\<close>

theorem outside_root_is_ignored_counterexample:
  "Rel ''/a/b'' ''/a/c/x.log'' = Inr ''../c/x.log''
   \<and> ShouldIgnore (\<lambda>p. None) outsideParser ''/a/c/x.log'' = True"
  by (simp add: Ignore_eval outsideParser_def)

text \<open>
  Claim C4, amended. For every candidate path that \<^verbatim>\<open>filepath.Rel\<close> cannot make relative to
  the root (it returns an error), \<^verbatim>\<open>ShouldIgnore\<close> returns false, whatever the rules are.
\<close>

theorem not_relative_is_kept:
  "Rel (rootDir g) filePath = Inl err \<Longrightarrow> ShouldIgnore fs g filePath = False"
  by (simp add: ShouldIgnore_def)

theorem not_relative_is_kept_witness:
  "Rel (rootDir outsideParser) ''x.log'' = Inl ErrRel
   \<and> ruleMatched ''*.log'' ''x.log''
   \<and> ShouldIgnore (\<lambda>p. None) outsideParser ''x.log'' = False"
proof -
  have h: "Rel (rootDir outsideParser) ''x.log'' = Inl ErrRel"
    by (simp add: Rel_eval outsideParser_def)
  have m: "ruleMatched ''*.log'' ''x.log''"
    by (simp add: ruleMatched_def Match_eval)
  from not_relative_is_kept [where g = outsideParser and filePath = "''x.log''"
      and fs = "\<lambda>p. None"] h m
  show ?thesis by simp
qed

text \<open>
  Claim C6. \<^verbatim>\<open>ParseGitIgnore\<close> on a path where there is no file returns an error and leaves
  the parser as it was: the rules and patterns are the ones from before the call, and
  \<^verbatim>\<open>ShouldIgnore\<close> answers as before.
\<close>

theorem missing_source_is_error:
  "fs gitignorePath = None \<Longrightarrow>
     ParseGitIgnore fs g gitignorePath = (g, Some ErrNotExist)
     \<and> rules (fst (ParseGitIgnore fs g gitignorePath)) = rules g
     \<and> patterns (fst (ParseGitIgnore fs g gitignorePath)) = patterns g
     \<and> ShouldIgnore fs (fst (ParseGitIgnore fs g gitignorePath)) filePath
         = ShouldIgnore fs g filePath"
  by (simp add: ParseGitIgnore_def)

theorem missing_source_is_error_witness:
  "logFs ''/non/existent/file'' = None
   \<and> ParseGitIgnore logFs (NewGitIgnoreParser ''/repo'') ''/repo/.gitignore'' = (logParser, None)
   \<and> ParseGitIgnore logFs logParser ''/non/existent/file'' = (logParser, Some ErrNotExist)
   \<and> ShouldIgnore logFs (fst (ParseGitIgnore logFs logParser ''/non/existent/file''))
        ''/repo/other.log'' = True"
proof -
  have h: "logFs ''/non/existent/file'' = None"
    by (simp add: logFs_def)
  have p: "ParseGitIgnore logFs (NewGitIgnoreParser ''/repo'') ''/repo/.gitignore''
             = (logParser, None)"
    by (simp add: Parse_eval logFs_def logSource_def logParser_def logRules_def)
  have s: "ShouldIgnore logFs logParser ''/repo/other.log'' = True"
    by (simp add: Ignore_eval logParser_def logRules_def)
  from missing_source_is_error [where fs = logFs and gitignorePath = "''/non/existent/file''"
      and g = logParser and filePath = "''/repo/other.log''"] h p s
  show ?thesis by simp
qed

text \<open>
  Claim C9. When no rule matches the candidate path, \<^verbatim>\<open>ShouldIgnore\<close> returns false; so it
  does for every path when the parser has no rule.
\<close>

theorem no_matching_rule_is_kept:
  "(rules g = [] \<longrightarrow> ShouldIgnore fs g filePath = False)
   \<and> ((\<forall>relPath. Rel (rootDir g) filePath = Inr relPath \<longrightarrow>
         (\<forall>rule \<in> set (rules g). \<not> ruleMatched (Pattern rule) (ToSlash relPath)))
        \<longrightarrow> ShouldIgnore fs g filePath = False)"
  by (auto simp: ShouldIgnore_def checkRules_no_match split: sum.splits)

theorem no_matching_rule_is_kept_witness:
  "Rel ''/repo'' ''/repo/main.go'' = Inr ''main.go''
   \<and> \<not> ruleMatched ''*.log'' ''main.go'' \<and> \<not> ruleMatched ''important.log'' ''main.go''
   \<and> ShouldIgnore (\<lambda>p. None) logParser ''/repo/main.go'' = False
   \<and> ShouldIgnore (\<lambda>p. None) (NewGitIgnoreParser ''/repo'') ''/repo/main.go'' = False"
proof -
  have rel: "Rel ''/repo'' ''/repo/main.go'' = Inr ''main.go''"
    by (simp add: Rel_eval)
  have m: "\<not> ruleMatched ''*.log'' ''main.go''" "\<not> ruleMatched ''important.log'' ''main.go''"
    by (simp_all add: ruleMatched_def Match_eval)
  have h: "\<forall>relPath. Rel (rootDir logParser) ''/repo/main.go'' = Inr relPath \<longrightarrow>
         (\<forall>rule \<in> set (rules logParser). \<not> ruleMatched (Pattern rule) (ToSlash relPath))"
    using rel m by (simp add: logParser_def logRules_def ToSlash_def)
  have e: "rules (NewGitIgnoreParser ''/repo'') = []"
    by (simp add: NewGitIgnoreParser_def)
  from no_matching_rule_is_kept [of logParser "\<lambda>p. None" "''/repo/main.go''"] h
    no_matching_rule_is_kept [of "NewGitIgnoreParser ''/repo''" "\<lambda>p. None" "''/repo/main.go''"] e
    rel m
  show ?thesis by blast
qed


text \<open>
  Claim C3, as stated for every rule parsed from a line ending in a slash, fails for a
  rule that is also a negation rule. With the rules parsed from \<^verbatim>\<open>build\<close> and \<^verbatim>\<open>!build/\<close> and
  a candidate \<^verbatim>\<open>/repo/build\<close> that is a file, the directory-only rule \<^verbatim>\<open>!build/\<close> matches a
  candidate that is not a directory and is not skipped: the answer is "do not ignore",
  where the earlier rule \<^verbatim>\<open>build\<close>, had the scan gone on to it, answers "ignore".
\<close>

theorem negated_directory_rule_not_skipped_counterexample:
  "ParseGitIgnore keepBuildFs (NewGitIgnoreParser ''/repo'') ''/repo/.gitignore''
     = (keepBuildParser, None)
   \<and> rules keepBuildParser = [plainBuildRule, keepBuildRule]
   \<and> IsDirectory keepBuildRule
   \<and> ruleMatched (Pattern keepBuildRule) ''build''
   \<and> keepBuildFs ''/repo/build'' = Some (File ''#!/bin/sh'')
   \<and> checkRules keepBuildFs ''/repo/build'' ''build'' [keepBuildRule, plainBuildRule] = False
   \<and> checkRules keepBuildFs ''/repo/build'' ''build'' [plainBuildRule] = True
   \<and> ShouldIgnore keepBuildFs keepBuildParser ''/repo/build'' = False
   \<and> ShouldIgnore keepBuildFs (keepBuildParser\<lparr>rules := [plainBuildRule]\<rparr>) ''/repo/build''
       = True"
  by (simp add: Parse_eval Ignore_eval keepBuildFs_def keepBuildSource_def keepBuildParser_def
      keepBuildRule_def plainBuildRule_def)

text \<open>
  Claim C3, amended. When the scan reaches a directory-only rule that is not a negation
  rule and that matches, the answer is "ignore" if the candidate is a directory; if it is
  not (or cannot be examined), the rule is skipped and the scan goes on with the earlier
  rules. So it is for \<^verbatim>\<open>ShouldIgnore\<close> when the rule is the last one declared. With the
  single rule parsed from \<^verbatim>\<open>build/\<close>, a file named \<^verbatim>\<open>build\<close> is kept and a directory named
  \<^verbatim>\<open>build\<close> is ignored.
\<close>

theorem directory_rule_needs_directory:
  "(IsDirectory rule \<and> \<not> IsNegation rule \<and> ruleMatched (Pattern rule) relPath \<longrightarrow>
      checkRules fs filePath relPath (rule # earlier) =
        (if fs filePath = Some Dir then True
         else checkRules fs filePath relPath earlier))
   \<and> (IsDirectory rule \<and> \<not> IsNegation rule \<and> Rel (rootDir g) filePath = Inr relPath
        \<and> ruleMatched (Pattern rule) (ToSlash relPath) \<longrightarrow>
      ShouldIgnore fs (g\<lparr>rules := rules g @ [rule]\<rparr>) filePath =
        (if fs filePath = Some Dir then True
         else ShouldIgnore fs g filePath))
   \<and> ParseGitIgnore buildFileFs (NewGitIgnoreParser ''/repo'') ''/repo/.gitignore''
        = (buildParser, None)
   \<and> buildFileFs ''/repo/build'' = Some (File ''#!/bin/sh'')
   \<and> ShouldIgnore buildFileFs buildParser ''/repo/build'' = False
   \<and> buildDirFs ''/repo/build'' = Some Dir
   \<and> ShouldIgnore buildDirFs buildParser ''/repo/build'' = True"
proof -
  have a: "checkRules fs filePath rp (rule # rs) =
        (if fs filePath = Some Dir then True
         else checkRules fs filePath rp rs)"
    if "IsDirectory rule" "\<not> IsNegation rule" "ruleMatched (Pattern rule) rp" for rp rs
    using that by (simp add: stat_not_dir_iff)
  have b: "ShouldIgnore fs (g\<lparr>rules := rules g @ [rule]\<rparr>) filePath =
        (if fs filePath = Some Dir then True
         else ShouldIgnore fs g filePath)"
    if "IsDirectory rule" "\<not> IsNegation rule" "Rel (rootDir g) filePath = Inr relPath"
      "ruleMatched (Pattern rule) (ToSlash relPath)"
    using that by (simp add: ShouldIgnore_def stat_not_dir_iff)
  have c: "ParseGitIgnore buildFileFs (NewGitIgnoreParser ''/repo'') ''/repo/.gitignore''
        = (buildParser, None)"
    by (simp add: Parse_eval buildFileFs_def buildSource_def buildParser_def buildRule_def)
  have d: "ShouldIgnore buildFileFs buildParser ''/repo/build'' = False"
    by (simp add: Ignore_eval buildFileFs_def buildParser_def buildRule_def)
  have e: "ShouldIgnore buildDirFs buildParser ''/repo/build'' = True"
    by (simp add: Ignore_eval buildDirFs_def buildParser_def buildRule_def)
  have f: "buildFileFs ''/repo/build'' = Some (File ''#!/bin/sh'')"
    "buildDirFs ''/repo/build'' = Some Dir"
    by (simp_all add: buildFileFs_def buildDirFs_def)
  from a b c d e f show ?thesis by blast
qed

theorem directory_rule_needs_directory_witness:
  "IsDirectory buildRule \<and> \<not> IsNegation buildRule
   \<and> Rel (rootDir (NewGitIgnoreParser ''/repo'')) ''/repo/build'' = Inr ''build''
   \<and> ruleMatched (Pattern buildRule) (ToSlash ''build'')
   \<and> buildFileFs ''/repo/build'' \<noteq> Some Dir
   \<and> buildDirFs ''/repo/build'' = Some Dir
   \<and> checkRules buildFileFs ''/repo/build'' (ToSlash ''build'') [buildRule] = False
   \<and> checkRules buildDirFs ''/repo/build'' (ToSlash ''build'') [buildRule] = True
   \<and> ShouldIgnore buildFileFs
        ((NewGitIgnoreParser ''/repo'')
           \<lparr>rules := rules (NewGitIgnoreParser ''/repo'') @ [buildRule]\<rparr>)
        ''/repo/build'' = False
   \<and> ShouldIgnore buildDirFs
        ((NewGitIgnoreParser ''/repo'')
           \<lparr>rules := rules (NewGitIgnoreParser ''/repo'') @ [buildRule]\<rparr>)
        ''/repo/build'' = True"
proof -
  have h: "IsDirectory buildRule" "\<not> IsNegation buildRule"
    by (simp_all add: buildRule_def)
  have r: "Rel (rootDir (NewGitIgnoreParser ''/repo'')) ''/repo/build'' = Inr ''build''"
    by (simp add: Rel_eval NewGitIgnoreParser_def)
  have m: "ruleMatched (Pattern buildRule) (ToSlash ''build'')"
    by (simp add: ruleMatched_def Match_eval buildRule_def ToSlash_def)
  have f: "buildFileFs ''/repo/build'' \<noteq> Some Dir" "buildDirFs ''/repo/build'' = Some Dir"
    by (simp_all add: buildFileFs_def buildDirFs_def)
  have n: "ShouldIgnore buildFileFs (NewGitIgnoreParser ''/repo'') ''/repo/build'' = False"
    by (simp add: NewGitIgnoreParser_def ShouldIgnore_def split: sum.splits)
  note onFile = directory_rule_needs_directory
    [where rule = buildRule and relPath = "ToSlash ''build''" and fs = buildFileFs
      and filePath = "''/repo/build''" and earlier = "[]"]
  note onDir = directory_rule_needs_directory
    [where rule = buildRule and relPath = "ToSlash ''build''" and fs = buildDirFs
      and filePath = "''/repo/build''" and earlier = "[]"]
  note onFile2 = directory_rule_needs_directory
    [where rule = buildRule and relPath = "''build''" and fs = buildFileFs
      and filePath = "''/repo/build''" and g = "NewGitIgnoreParser ''/repo''"]
  note onDir2 = directory_rule_needs_directory
    [where rule = buildRule and relPath = "''build''" and fs = buildDirFs
      and filePath = "''/repo/build''" and g = "NewGitIgnoreParser ''/repo''"]
  have c1: "checkRules buildFileFs ''/repo/build'' (ToSlash ''build'') [buildRule] = False"
    using onFile [THEN conjunct1] h m f(1) by simp
  have c2: "checkRules buildDirFs ''/repo/build'' (ToSlash ''build'') [buildRule] = True"
    using onDir [THEN conjunct1] h m f(2) by simp
  have c3: "ShouldIgnore buildFileFs
        ((NewGitIgnoreParser ''/repo'')
           \<lparr>rules := rules (NewGitIgnoreParser ''/repo'') @ [buildRule]\<rparr>)
        ''/repo/build'' = False"
    using onFile2 [THEN conjunct2, THEN conjunct1] h r m f(1) n by simp
  have c4: "ShouldIgnore buildDirFs
        ((NewGitIgnoreParser ''/repo'')
           \<lparr>rules := rules (NewGitIgnoreParser ''/repo'') @ [buildRule]\<rparr>)
        ''/repo/build'' = True"
    using onDir2 [THEN conjunct2, THEN conjunct1] h r m f(2) by simp
  from h r m f c1 c2 c3 c4 show ?thesis by blast
qed

text \<open>
  Claim C5. For every line the scanner delivers, with \<open>t\<close> the line after
  \<^verbatim>\<open>strings.TrimSpace\<close>: the loop body of \<^verbatim>\<open>ParseGitIgnore\<close> does what the specification says
  (\<open>specRule\<close>), and it appends the trimmed line to the patterns exactly when it appends a
  rule. Clause by clause: when \<open>t\<close> is empty or starts with \<^verbatim>\<open>#\<close> the parser is unchanged;
  when \<open>t\<close> starts with \<^verbatim>\<open>!\<close> the one new rule is a negation rule whose pattern is \<open>t\<close>
  without that \<^verbatim>\<open>!\<close>; when \<open>t\<close> (after the \<^verbatim>\<open>!\<close>, if any) ends with \<^verbatim>\<open>/\<close> the one new rule is a
  directory-only rule whose pattern has lost that \<^verbatim>\<open>/\<close>; any other line gives one plain
  rule whose pattern is \<open>t\<close>. The rules a readable file adds are those of its lines, in
  order.
\<close>

theorem line_classification:
  "parseLine g tok =
     (case specRule tok of
        None \<Rightarrow> g
      | Some rule \<Rightarrow>
          g\<lparr>patterns := patterns g @ [TrimSpace tok], rules := rules g @ [rule]\<rparr>)
   \<and> (TrimSpace tok = [] \<or> hd (TrimSpace tok) = CHR ''#'' \<longrightarrow> parseLine g tok = g)
   \<and> (TrimSpace tok = CHR ''!'' # body \<and> (body = [] \<or> last body \<noteq> CHR ''/'') \<longrightarrow>
        rules (parseLine g tok)
          = rules g @ [\<lparr>Pattern = body, IsNegation = True, IsDirectory = False\<rparr>])
   \<and> (TrimSpace tok = CHR ''!'' # body @ ''/'' \<longrightarrow>
        rules (parseLine g tok)
          = rules g @ [\<lparr>Pattern = body, IsNegation = True, IsDirectory = True\<rparr>])
   \<and> (TrimSpace tok = body @ ''/'' \<and> (body = [] \<or> hd body \<notin> {CHR ''#'', CHR ''!''}) \<longrightarrow>
        rules (parseLine g tok)
          = rules g @ [\<lparr>Pattern = body, IsNegation = False, IsDirectory = True\<rparr>])
   \<and> (TrimSpace tok \<noteq> [] \<and> hd (TrimSpace tok) \<notin> {CHR ''#'', CHR ''!''}
        \<and> last (TrimSpace tok) \<noteq> CHR ''/'' \<longrightarrow>
        rules (parseLine g tok)
          = rules g @ [\<lparr>Pattern = TrimSpace tok, IsNegation = False, IsDirectory = False\<rparr>])
   \<and> (fs path = Some (File content) \<longrightarrow>
        rules (fst (ParseGitIgnore fs g path))
          = rules g @ List.map_filter specRule (fst (ScanLines content)))"
proof -
  note eq = parseLine_specRule [of g tok]
  have skip: "parseLine g tok = g"
    if "TrimSpace tok = [] \<or> hd (TrimSpace tok) = CHR ''#''"
    using that unfolding eq by (auto simp: specRule_def Let_def)
  have neg: "rules (parseLine g tok)
          = rules g @ [\<lparr>Pattern = body, IsNegation = True, IsDirectory = False\<rparr>]"
    if "TrimSpace tok = CHR ''!'' # body" "body = [] \<or> last body \<noteq> CHR ''/''"
    using that unfolding eq by (auto simp: specRule_def Let_def)
  have negdir: "rules (parseLine g tok)
          = rules g @ [\<lparr>Pattern = body, IsNegation = True, IsDirectory = True\<rparr>]"
    if "TrimSpace tok = CHR ''!'' # body @ ''/''"
    using that unfolding eq by (auto simp: specRule_def Let_def)
  have dir: "rules (parseLine g tok)
          = rules g @ [\<lparr>Pattern = body, IsNegation = False, IsDirectory = True\<rparr>]"
    if "TrimSpace tok = body @ ''/''" "body = [] \<or> hd body \<notin> {CHR ''#'', CHR ''!''}"
    using that unfolding eq by (cases body) (auto simp: specRule_def Let_def)
  have plain: "rules (parseLine g tok)
          = rules g @ [\<lparr>Pattern = TrimSpace tok, IsNegation = False, IsDirectory = False\<rparr>]"
    if "TrimSpace tok \<noteq> []" "hd (TrimSpace tok) \<notin> {CHR ''#'', CHR ''!''}"
      "last (TrimSpace tok) \<noteq> CHR ''/''"
    using that unfolding eq by (auto simp: specRule_def Let_def)
  have whole: "rules (fst (ParseGitIgnore fs g path))
          = rules g @ List.map_filter specRule (fst (ScanLines content))"
    if "fs path = Some (File content)"
    using that by (simp add: ParseGitIgnore_def foldl_parseLine_specRule split: prod.splits)
  from eq skip neg negdir dir plain whole show ?thesis by blast
qed

theorem line_classification_witness:
  "TrimSpace [CHR 0x09, CHR ''#'', CHR '' '', CHR ''x''] = ''# x''
   \<and> parseLine logParser [CHR 0x09, CHR ''#'', CHR '' '', CHR ''x''] = logParser
   \<and> TrimSpace ''  '' = []
   \<and> parseLine logParser ''  '' = logParser
   \<and> TrimSpace '' !important.log '' = ''!important.log''
   \<and> rules (parseLine (NewGitIgnoreParser ''/repo'') '' !important.log '')
       = [\<lparr>Pattern = ''important.log'', IsNegation = True, IsDirectory = False\<rparr>]
   \<and> TrimSpace ''!build/'' = ''!build/''
   \<and> rules (parseLine (NewGitIgnoreParser ''/repo'') ''!build/'')
       = [\<lparr>Pattern = ''build'', IsNegation = True, IsDirectory = True\<rparr>]
   \<and> TrimSpace ''build/'' = ''build/''
   \<and> rules (parseLine (NewGitIgnoreParser ''/repo'') ''build/'')
       = [\<lparr>Pattern = ''build'', IsNegation = False, IsDirectory = True\<rparr>]
   \<and> TrimSpace (''*.log'' @ [CHR 0x0D]) = ''*.log''
   \<and> rules (parseLine (NewGitIgnoreParser ''/repo'') (''*.log'' @ [CHR 0x0D]))
       = [\<lparr>Pattern = ''*.log'', IsNegation = False, IsDirectory = False\<rparr>]
   \<and> logFs ''/repo/.gitignore'' = Some (File logSource)
   \<and> ScanLines logSource = ([''*.log'', ''!important.log''], None)
   \<and> rules (fst (ParseGitIgnore logFs (NewGitIgnoreParser ''/repo'') ''/repo/.gitignore''))
       = logRules"
proof -
  have t1: "TrimSpace [CHR 0x09, CHR ''#'', CHR '' '', CHR ''x''] = ''# x''"
    and t2: "TrimSpace ''  '' = []"
    and t3: "TrimSpace '' !important.log '' = ''!important.log''"
    and t4: "TrimSpace ''!build/'' = ''!build/''"
    and t5: "TrimSpace ''build/'' = ''build/''"
    and t6: "TrimSpace (''*.log'' @ [CHR 0x0D]) = ''*.log''"
    by (simp_all add: TrimSpace_eval)
  have e: "rules (NewGitIgnoreParser ''/repo'') = []"
    by (simp add: NewGitIgnoreParser_def)
  have f: "logFs ''/repo/.gitignore'' = Some (File logSource)"
    by (simp add: logFs_def)
  have s: "ScanLines logSource = ([''*.log'', ''!important.log''], None)"
    by (simp add: ScanLines.simps MaxScanTokenSize_def dropCR_def logSource_def)
  have sr1: "specRule ''*.log''
      = Some \<lparr>Pattern = ''*.log'', IsNegation = False, IsDirectory = False\<rparr>"
    and sr2: "specRule ''!important.log''
      = Some \<lparr>Pattern = ''important.log'', IsNegation = True, IsDirectory = False\<rparr>"
    by (simp_all add: specRule_def TrimSpace_eval)
  have sr: "List.map_filter specRule [''*.log'', ''!important.log''] = logRules"
    by (simp add: List.map_filter_simps sr1 sr2 logRules_def)
  note c1 = line_classification
    [where tok = "[CHR 0x09, CHR ''#'', CHR '' '', CHR ''x'']" and g = logParser]
  note c2 = line_classification [where tok = "''  ''" and g = logParser]
  note c3 = line_classification
    [where tok = "'' !important.log ''" and g = "NewGitIgnoreParser ''/repo''"
      and body = "''important.log''"]
  note c4 = line_classification
    [where tok = "''!build/''" and g = "NewGitIgnoreParser ''/repo''" and body = "''build''"]
  note c5 = line_classification
    [where tok = "''build/''" and g = "NewGitIgnoreParser ''/repo''" and body = "''build''"]
  note c6 = line_classification
    [where tok = "''*.log'' @ [CHR 0x0D]" and g = "NewGitIgnoreParser ''/repo''"]
  note c7 = line_classification
    [where fs = logFs and path = "''/repo/.gitignore''" and content = logSource
      and g = "NewGitIgnoreParser ''/repo''"]
  have r1: "parseLine logParser [CHR 0x09, CHR ''#'', CHR '' '', CHR ''x''] = logParser"
    using c1 [THEN conjunct2, THEN conjunct1] t1 by simp
  have r2: "parseLine logParser ''  '' = logParser"
    using c2 [THEN conjunct2, THEN conjunct1] t2 by simp
  have r3: "rules (parseLine (NewGitIgnoreParser ''/repo'') '' !important.log '')
       = [\<lparr>Pattern = ''important.log'', IsNegation = True, IsDirectory = False\<rparr>]"
    using c3 [THEN conjunct2, THEN conjunct2, THEN conjunct1] t3 e by simp
  have r4: "rules (parseLine (NewGitIgnoreParser ''/repo'') ''!build/'')
       = [\<lparr>Pattern = ''build'', IsNegation = True, IsDirectory = True\<rparr>]"
    using c4 [THEN conjunct2, THEN conjunct2, THEN conjunct2, THEN conjunct1] t4 e by simp
  have r5: "rules (parseLine (NewGitIgnoreParser ''/repo'') ''build/'')
       = [\<lparr>Pattern = ''build'', IsNegation = False, IsDirectory = True\<rparr>]"
    using c5 [THEN conjunct2, THEN conjunct2, THEN conjunct2, THEN conjunct2, THEN conjunct1]
      t5 e by simp
  have r6: "rules (parseLine (NewGitIgnoreParser ''/repo'') (''*.log'' @ [CHR 0x0D]))
       = [\<lparr>Pattern = ''*.log'', IsNegation = False, IsDirectory = False\<rparr>]"
    using c6 [THEN conjunct2, THEN conjunct2, THEN conjunct2, THEN conjunct2, THEN conjunct2,
        THEN conjunct1] t6 e by simp
  have r7: "rules (fst (ParseGitIgnore logFs (NewGitIgnoreParser ''/repo'') ''/repo/.gitignore''))
       = logRules"
    using c7 [THEN conjunct2, THEN conjunct2, THEN conjunct2, THEN conjunct2, THEN conjunct2,
        THEN conjunct2] f s sr e by simp
  from t1 t2 t3 t4 t5 t6 f s r1 r2 r3 r4 r5 r6 r7 show ?thesis by blast
qed

text \<open>
  Claim C8, as stated, fails when the parser already holds rules before the first of the
  two calls: \<^verbatim>\<open>/repo/.gitignore\<close> has given one rule, \<^verbatim>\<open>/repo/sub/.gitignore\<close> is then parsed
  twice; there are three rules after the first of these calls and five, not six, after
  the second.
\<close>

theorem reparse_does_not_double_counterexample:
  "fst (ParseGitIgnore twoFs (NewGitIgnoreParser ''/repo'') ''/repo/.gitignore'') = tmpParser
   \<and> length (rules (fst (ParseGitIgnore twoFs tmpParser ''/repo/sub/.gitignore''))) = 3
   \<and> length (rules (fst (ParseGitIgnore twoFs
         (fst (ParseGitIgnore twoFs tmpParser ''/repo/sub/.gitignore''))
         ''/repo/sub/.gitignore''))) = 5
   \<and> length (rules (fst (ParseGitIgnore twoFs
         (fst (ParseGitIgnore twoFs tmpParser ''/repo/sub/.gitignore''))
         ''/repo/sub/.gitignore'')))
      \<noteq> 2 * length (rules (fst (ParseGitIgnore twoFs tmpParser ''/repo/sub/.gitignore'')))"
  by (simp add: Parse_eval twoFs_def tmpParser_def logSource_def)

text \<open>
  Claim C8, amended. Parsing is additive: a call appends to the rules and to the patterns
  what the same call appends to an empty parser, so parsing the same source twice appends
  its rules and patterns twice. When the parser holds no rule and no pattern before the
  first call, the number of rules and the number of patterns after the second call are
  twice what they were after the first.
\<close>

theorem reparse_appends_again:
  "rules (fst (ParseGitIgnore fs g path))
     = rules g @ rules (fst (ParseGitIgnore fs (NewGitIgnoreParser (rootDir g)) path))
   \<and> rules (fst (ParseGitIgnore fs (fst (ParseGitIgnore fs g path)) path))
     = rules g @ rules (fst (ParseGitIgnore fs (NewGitIgnoreParser (rootDir g)) path))
         @ rules (fst (ParseGitIgnore fs (NewGitIgnoreParser (rootDir g)) path))
   \<and> patterns (fst (ParseGitIgnore fs g path))
     = patterns g @ patterns (fst (ParseGitIgnore fs (NewGitIgnoreParser (rootDir g)) path))
   \<and> patterns (fst (ParseGitIgnore fs (fst (ParseGitIgnore fs g path)) path))
     = patterns g @ patterns (fst (ParseGitIgnore fs (NewGitIgnoreParser (rootDir g)) path))
         @ patterns (fst (ParseGitIgnore fs (NewGitIgnoreParser (rootDir g)) path))
   \<and> (rules g = [] \<and> patterns g = [] \<longrightarrow>
        length (rules (fst (ParseGitIgnore fs (fst (ParseGitIgnore fs g path)) path)))
          = 2 * length (rules (fst (ParseGitIgnore fs g path)))
        \<and> length (patterns (fst (ParseGitIgnore fs (fst (ParseGitIgnore fs g path)) path)))
          = 2 * length (patterns (fst (ParseGitIgnore fs g path))))"
proof -
  let ?new = "fst (ParseGitIgnore fs (NewGitIgnoreParser (rootDir g)) path)"
  let ?g1 = "fst (ParseGitIgnore fs g path)"
  let ?g2 = "fst (ParseGitIgnore fs ?g1 path)"
  have a: "rules ?g1 = rules g @ rules ?new" "patterns ?g1 = patterns g @ patterns ?new"
    using ParseGitIgnore_additive [of fs g path "rootDir g"] by simp_all
  have b: "rules ?g2 = rules ?g1 @ rules ?new" "patterns ?g2 = patterns ?g1 @ patterns ?new"
    using ParseGitIgnore_additive [of fs ?g1 path "rootDir g"] by simp_all
  from a b show ?thesis by simp
qed

theorem reparse_appends_again_witness:
  "rules (NewGitIgnoreParser ''/repo'') = [] \<and> patterns (NewGitIgnoreParser ''/repo'') = []
   \<and> length (rules (fst (ParseGitIgnore logFs (NewGitIgnoreParser ''/repo'')
        ''/repo/.gitignore''))) = 2
   \<and> length (rules (fst (ParseGitIgnore logFs
        (fst (ParseGitIgnore logFs (NewGitIgnoreParser ''/repo'') ''/repo/.gitignore''))
        ''/repo/.gitignore''))) = 4
   \<and> length (patterns (fst (ParseGitIgnore logFs
        (fst (ParseGitIgnore logFs (NewGitIgnoreParser ''/repo'') ''/repo/.gitignore''))
        ''/repo/.gitignore''))) = 4"
proof -
  have e: "rules (NewGitIgnoreParser ''/repo'') = []" "patterns (NewGitIgnoreParser ''/repo'') = []"
    by (simp_all add: NewGitIgnoreParser_def)
  have p: "ParseGitIgnore logFs (NewGitIgnoreParser ''/repo'') ''/repo/.gitignore''
             = (logParser, None)"
    by (simp add: Parse_eval logFs_def logSource_def logParser_def logRules_def)
  have l: "length (rules logParser) = 2" "length (patterns logParser) = 2"
    by (simp_all add: logParser_def logRules_def)
  from reparse_appends_again
    [where fs = logFs and g = "NewGitIgnoreParser ''/repo''" and path = "''/repo/.gitignore''"]
    e p l
  show ?thesis by simp
qed

text \<open>
  Claim C10, as stated for whenever such a rule matches, fails when a rule declared after
  it decides first. With the rules parsed from \<^verbatim>\<open>!build/\<close> and \<^verbatim>\<open>build\<close>, in that order, and
  a candidate \<^verbatim>\<open>/repo/build\<close> that is a file, the rule \<^verbatim>\<open>!build/\<close> is a negation rule and a
  directory-only rule and matches the candidate, and the answer is "ignore": the scan
  starts at \<^verbatim>\<open>build\<close>, which matches and answers, and never reaches \<^verbatim>\<open>!build/\<close>.
\<close>

theorem later_rule_decides_first_counterexample:
  "ParseGitIgnore shadowFs (NewGitIgnoreParser ''/repo'') ''/repo/.gitignore''
     = (shadowParser, None)
   \<and> rules shadowParser = [keepBuildRule, plainBuildRule]
   \<and> IsNegation keepBuildRule \<and> IsDirectory keepBuildRule
   \<and> Rel (rootDir shadowParser) ''/repo/build'' = Inr ''build''
   \<and> ruleMatched (Pattern keepBuildRule) ''build''
   \<and> shadowFs ''/repo/build'' = Some (File ''#!/bin/sh'')
   \<and> ShouldIgnore shadowFs shadowParser ''/repo/build'' = True"
  by (simp add: Parse_eval Ignore_eval shadowFs_def shadowSource_def shadowParser_def
      keepBuildRule_def plainBuildRule_def)

text \<open>
  Claim C10, amended. When the scan reaches a matching rule that is both a negation rule
  and a directory-only rule, the answer is "do not ignore", whatever the file system says
  about the candidate: the test of the negation flag comes first and the directory is
  never examined. The scan reaches the rule when it goes on from every rule declared
  after it (\<open>passedOver\<close>: the later rule does not match the candidate, or it is a
  directory-only rule without negation and the candidate is not a directory); then
  \<^verbatim>\<open>ShouldIgnore\<close> returns false. At any rule the loop either goes on so, or returns at
  once. Every line \<^verbatim>\<open>!name/\<close> gives such a rule, with the pattern \<^verbatim>\<open>name\<close>.
\<close>

theorem negation_precedes_directory_check:
  "(IsNegation rule \<and> IsDirectory rule \<and> ruleMatched (Pattern rule) relPath \<longrightarrow>
      checkRules fs filePath relPath (rule # earlier) = False)
   \<and> (IsNegation rule \<and> IsDirectory rule \<and> Rel (rootDir g) filePath = Inr relPath
        \<and> ruleMatched (Pattern rule) (ToSlash relPath)
        \<and> rules g = before @ [rule] @ later
        \<and> (\<forall>r \<in> set later. passedOver fs filePath (ToSlash relPath) r) \<longrightarrow>
      ShouldIgnore fs g filePath = False)
   \<and> checkRules fs filePath relPath (later1 # earlier)
        = (if passedOver fs filePath relPath later1
           then checkRules fs filePath relPath earlier
           else \<not> IsNegation later1)
   \<and> parseLine g (''!'' @ name @ ''/'')
        = g\<lparr>patterns := patterns g @ [''!'' @ name @ ''/''],
             rules := rules g @ [\<lparr>Pattern = name, IsNegation = True, IsDirectory = True\<rparr>]\<rparr>"
proof -
  have a: "checkRules fs filePath rp (rule # rs) = False"
    if "IsNegation rule" "ruleMatched (Pattern rule) rp" for rp rs
    using that by simp
  have e: "checkRules fs filePath relPath (later1 # earlier)
        = (if passedOver fs filePath relPath later1
           then checkRules fs filePath relPath earlier
           else \<not> IsNegation later1)"
    by (simp add: passedOver_def)
  have b: "ShouldIgnore fs g filePath = False"
    if "IsNegation rule" "Rel (rootDir g) filePath = Inr relPath"
      "ruleMatched (Pattern rule) (ToSlash relPath)" "rules g = before @ [rule] @ later"
      "\<forall>r \<in> set later. passedOver fs filePath (ToSlash relPath) r"
  proof -
    have "checkRules fs filePath (ToSlash relPath) (rev later @ rule # rev before)
        = checkRules fs filePath (ToSlash relPath) (rule # rev before)"
      using that(5) by (intro checkRules_passed_over) simp
    with that a [of "ToSlash relPath" "rev before"] show ?thesis
      by (simp add: ShouldIgnore_def)
  qed
  have t: "TrimSpace (CHR ''!'' # name @ ''/'') = CHR ''!'' # name @ ''/''"
    by (rule TrimSpace_ascii_ends) (simp_all add: IsSpace_def)
  have c: "parseLine g (''!'' @ name @ ''/'')
        = g\<lparr>patterns := patterns g @ [''!'' @ name @ ''/''],
             rules := rules g @ [\<lparr>Pattern = name, IsNegation = True, IsDirectory = True\<rparr>]\<rparr>"
    unfolding parseLine_specRule by (simp add: specRule_def t Let_def)
  from a b e c show ?thesis by blast
qed

theorem negation_precedes_directory_check_witness:
  "ParseGitIgnore reachFs (NewGitIgnoreParser ''/repo'') ''/repo/.gitignore''
     = (reachParser, None)
   \<and> IsNegation keepBuildRule \<and> IsDirectory keepBuildRule
   \<and> Rel (rootDir reachParser) ''/repo/build'' = Inr ''build''
   \<and> ruleMatched (Pattern keepBuildRule) (ToSlash ''build'')
   \<and> rules reachParser = [plainBuildRule] @ [keepBuildRule] @ [buildRule, logRule]
   \<and> reachFs ''/repo/build'' = Some (File ''#!/bin/sh'')
   \<and> ruleMatched (Pattern buildRule) (ToSlash ''build'')
   \<and> passedOver reachFs ''/repo/build'' (ToSlash ''build'') buildRule
   \<and> passedOver reachFs ''/repo/build'' (ToSlash ''build'') logRule
   \<and> checkRules reachFs ''/repo/build'' (ToSlash ''build'') [keepBuildRule, plainBuildRule]
       = False
   \<and> ShouldIgnore reachFs reachParser ''/repo/build'' = False
   \<and> ShouldIgnore reachFs (reachParser\<lparr>rules := [plainBuildRule, buildRule, logRule]\<rparr>)
         ''/repo/build'' = True
   \<and> parseLine (NewGitIgnoreParser ''/repo'') (''!'' @ ''build'' @ ''/'')
       = \<lparr>patterns = [''!build/''], rules = [keepBuildRule], rootDir = ''/repo''\<rparr>"
proof -
  have p: "ParseGitIgnore reachFs (NewGitIgnoreParser ''/repo'') ''/repo/.gitignore''
     = (reachParser, None)"
    by (simp add: Parse_eval reachFs_def reachSource_def reachParser_def
        keepBuildRule_def plainBuildRule_def buildRule_def logRule_def)
  have h: "IsNegation keepBuildRule" "IsDirectory keepBuildRule"
    by (simp_all add: keepBuildRule_def)
  have r: "Rel (rootDir reachParser) ''/repo/build'' = Inr ''build''"
    by (simp add: Rel_eval reachParser_def)
  have m: "ruleMatched (Pattern keepBuildRule) (ToSlash ''build'')"
    "ruleMatched (Pattern buildRule) (ToSlash ''build'')"
    by (simp_all add: ruleMatched_def Match_eval keepBuildRule_def buildRule_def ToSlash_def)
  have d: "rules reachParser = [plainBuildRule] @ [keepBuildRule] @ [buildRule, logRule]"
    by (simp add: reachParser_def)
  have f: "reachFs ''/repo/build'' = Some (File ''#!/bin/sh'')"
    by (simp add: reachFs_def)
  have l1: "passedOver reachFs ''/repo/build'' (ToSlash ''build'') buildRule"
    by (simp add: passedOver_def ruleMatched_def Match_eval buildRule_def ToSlash_def
        reachFs_def IsDir_def)
  have l2: "passedOver reachFs ''/repo/build'' (ToSlash ''build'') logRule"
    by (simp add: passedOver_def ruleMatched_def Match_eval logRule_def ToSlash_def)
  have l: "\<forall>r \<in> set [buildRule, logRule]. passedOver reachFs ''/repo/build'' (ToSlash ''build'') r"
    using l1 l2 by simp
  have o: "ShouldIgnore reachFs (reachParser\<lparr>rules := [plainBuildRule, buildRule, logRule]\<rparr>)
      ''/repo/build'' = True"
    by (simp add: Ignore_eval reachParser_def plainBuildRule_def buildRule_def logRule_def
        reachFs_def)
  note scan = negation_precedes_directory_check
    [where rule = keepBuildRule and relPath = "ToSlash ''build''" and fs = reachFs
      and filePath = "''/repo/build''" and earlier = "[plainBuildRule]"]
  note whole = negation_precedes_directory_check
    [where rule = keepBuildRule and relPath = "''build''" and fs = reachFs
      and filePath = "''/repo/build''" and g = reachParser
      and before = "[plainBuildRule]" and later = "[buildRule, logRule]"]
  note parsed = negation_precedes_directory_check
    [where g = "NewGitIgnoreParser ''/repo''" and name = "''build''"]
  have c1: "checkRules reachFs ''/repo/build'' (ToSlash ''build'')
      [keepBuildRule, plainBuildRule] = False"
    using scan [THEN conjunct1] h m(1) by blast
  have c2: "ShouldIgnore reachFs reachParser ''/repo/build'' = False"
    using whole [THEN conjunct2, THEN conjunct1] h r m(1) d l by blast
  have c3: "parseLine (NewGitIgnoreParser ''/repo'') (''!'' @ ''build'' @ ''/'')
       = \<lparr>patterns = [''!build/''], rules = [keepBuildRule], rootDir = ''/repo''\<rparr>"
    using parsed [THEN conjunct2, THEN conjunct2, THEN conjunct2]
    by (simp add: NewGitIgnoreParser_def keepBuildRule_def)
  from p h r m d f l1 l2 o c1 c2 c3 show ?thesis by blast
qed

text \<open>
  Claim C7. A rule whose pattern has an unterminated bracket expression matches no name:
  \<^verbatim>\<open>filepath.Match\<close> never reports a match for it, so the rule matches no candidate path,
  and \<^verbatim>\<open>ShouldIgnore\<close> answers as if the rule were not there, wherever the rule stands among
  the others. \<^verbatim>\<open>ShouldIgnore\<close> has no error result, and whenever \<^verbatim>\<open>filepath.Match\<close> reports an
  error (which \<^verbatim>\<open>ShouldIgnore\<close> drops) it also reports "no match".
\<close>

theorem malformed_rule_is_skipped:
  "(unterminatedBracket (Pattern rule) \<longrightarrow>
      fst (Match (Pattern rule) name) = False
      \<and> ruleMatched (Pattern rule) relPath = False
      \<and> checkRules fs filePath relPath (later @ rule # earlier)
          = checkRules fs filePath relPath (later @ earlier)
      \<and> ShouldIgnore fs (g\<lparr>rules := before @ [rule] @ behind\<rparr>) filePath
          = ShouldIgnore fs (g\<lparr>rules := before @ behind\<rparr>) filePath)
   \<and> (snd (Match pattern name) \<noteq> None \<longrightarrow> fst (Match pattern name) = False)"
proof -
  have a: "fst (Match (Pattern rule) n) = False" if "unterminatedBracket (Pattern rule)" for n
    using that by (rule unterminatedBracket_never_matches)
  have b: "ruleMatched (Pattern rule) rp = False" if "unterminatedBracket (Pattern rule)" for rp
    using a [OF that] matchParts_never [of "Pattern rule"] by (simp add: ruleMatched_def)
  have c: "checkRules fs filePath rp (xs @ rule # ys) = checkRules fs filePath rp (xs @ ys)"
    if "unterminatedBracket (Pattern rule)" for rp xs ys
    using b [OF that] by (intro checkRules_drop_unmatched) simp
  have d: "ShouldIgnore fs (g\<lparr>rules := before @ [rule] @ behind\<rparr>) filePath
          = ShouldIgnore fs (g\<lparr>rules := before @ behind\<rparr>) filePath"
    if "unterminatedBracket (Pattern rule)"
    using c [OF that, of _ "rev behind" "rev before"]
    by (simp add: ShouldIgnore_def split: sum.splits)
  have e: "fst (Match pattern name) = False" if "snd (Match pattern name) \<noteq> None"
    using that by (rule Match_error_is_no_match)
  from a b c d e show ?thesis by blast
qed

theorem malformed_rule_is_skipped_witness:
  "ParseGitIgnore badFs (NewGitIgnoreParser ''/repo'') ''/repo/.gitignore'' = (badParser, None)
   \<and> unterminatedBracket (Pattern badRule)
   \<and> Match ''[abc'' ''a'' = (False, Some ErrBadPattern)
   \<and> Match ''[abc'' ''other.log'' = (False, Some ErrBadPattern)
   \<and> snd (Match ''[abc'' ''a'') \<noteq> None \<and> fst (Match ''[abc'' ''a'') = False
   \<and> ruleMatched (Pattern badRule) ''a'' = False
   \<and> ShouldIgnore (\<lambda>p. None) ((NewGitIgnoreParser ''/repo'')\<lparr>rules := [logRule] @ [badRule] @ []\<rparr>)
        ''/repo/other.log'' = True
   \<and> ShouldIgnore (\<lambda>p. None) ((NewGitIgnoreParser ''/repo'')\<lparr>rules := [] @ [badRule] @ [logRule]\<rparr>)
        ''/repo/other.log'' = True
   \<and> ShouldIgnore (\<lambda>p. None) ((NewGitIgnoreParser ''/repo'')\<lparr>rules := [logRule] @ [badRule] @ []\<rparr>)
        ''/repo/a'' = False"
proof -
  have p: "ParseGitIgnore badFs (NewGitIgnoreParser ''/repo'') ''/repo/.gitignore''
      = (badParser, None)"
    by (simp add: Parse_eval badFs_def badSource_def badParser_def logRule_def badRule_def)
  have u: "unterminatedBracket (Pattern badRule)"
    by (simp add: badRule_def)
  have m: "Match ''[abc'' ''a'' = (False, Some ErrBadPattern)"
    "Match ''[abc'' ''other.log'' = (False, Some ErrBadPattern)"
    by (simp_all add: Match_eval)
  have s1: "ShouldIgnore (\<lambda>p. None) ((NewGitIgnoreParser ''/repo'')\<lparr>rules := [logRule] @ []\<rparr>)
        ''/repo/other.log'' = True"
    and s2: "ShouldIgnore (\<lambda>p. None) ((NewGitIgnoreParser ''/repo'')\<lparr>rules := [] @ [logRule]\<rparr>)
        ''/repo/other.log'' = True"
    and s3: "ShouldIgnore (\<lambda>p. None) ((NewGitIgnoreParser ''/repo'')\<lparr>rules := [logRule] @ []\<rparr>)
        ''/repo/a'' = False"
    by (simp_all add: Ignore_eval NewGitIgnoreParser_def logRule_def)
  note t1 = malformed_rule_is_skipped
    [where rule = badRule and name = "''a''" and relPath = "''a''" and fs = "\<lambda>p. None"
      and g = "NewGitIgnoreParser ''/repo''" and before = "[logRule]" and behind = "[]"
      and filePath = "''/repo/other.log''", THEN conjunct1, rule_format, OF u]
  note t2 = malformed_rule_is_skipped
    [where rule = badRule and fs = "\<lambda>p. None"
      and g = "NewGitIgnoreParser ''/repo''" and before = "[]" and behind = "[logRule]"
      and filePath = "''/repo/other.log''", THEN conjunct1, rule_format, OF u]
  note t3 = malformed_rule_is_skipped
    [where rule = badRule and fs = "\<lambda>p. None"
      and g = "NewGitIgnoreParser ''/repo''" and before = "[logRule]" and behind = "[]"
      and filePath = "''/repo/a''", THEN conjunct1, rule_format, OF u]
  have r: "ruleMatched (Pattern badRule) ''a'' = False"
    using t1 by blast
  have n: "snd (Match ''[abc'' ''a'') \<noteq> None"
    using m(1) by simp
  have f: "fst (Match ''[abc'' ''a'') = False"
    using malformed_rule_is_skipped
      [where pattern = "''[abc''" and name = "''a''", THEN conjunct2] n
    by blast
  have c1: "ShouldIgnore (\<lambda>p. None)
        ((NewGitIgnoreParser ''/repo'')\<lparr>rules := [logRule] @ [badRule] @ []\<rparr>)
        ''/repo/other.log'' = True"
    using t1 s1 by simp
  have c2: "ShouldIgnore (\<lambda>p. None)
        ((NewGitIgnoreParser ''/repo'')\<lparr>rules := [] @ [badRule] @ [logRule]\<rparr>)
        ''/repo/other.log'' = True"
    using t2 s2 by simp
  have c3: "ShouldIgnore (\<lambda>p. None)
        ((NewGitIgnoreParser ''/repo'')\<lparr>rules := [logRule] @ [badRule] @ []\<rparr>)
        ''/repo/a'' = False"
    using t3 s3 by simp
  from p u m n f r c1 c2 c3 show ?thesis by blast
qed

end
